theory Spec2Isabelle
  imports Complex_Main "HOL-Library.Word" "HOL-Library.Multiset" "HOL-Library.Sublist"
begin

section \<open>Card model\<close>

text \<open>
  A JavaScript string is a sequence of UTF-16 code units. The four suit symbols of
  \<^verbatim>\<open>ConcorGame.tsx\<close> lie in the basic plane, so each is one code unit, and
  \<^verbatim>\<open>length\<close>, \<^verbatim>\<open>slice\<close> and \<^verbatim>\<open>===\<close> on card tokens are
  the list operations below.
\<close>

type_synonym jsstring = "16 word list"

definition SPADE :: jsstring where "SPADE = [0x2660]"
definition HEART :: jsstring where "HEART = [0x2665]"
definition DIAMOND :: jsstring where "DIAMOND = [0x2666]"
definition CLUB :: jsstring where "CLUB = [0x2663]"

definition rA :: jsstring where "rA = [0x41]"
definition r2 :: jsstring where "r2 = [0x32]"
definition r3 :: jsstring where "r3 = [0x33]"
definition r4 :: jsstring where "r4 = [0x34]"
definition r5 :: jsstring where "r5 = [0x35]"
definition r6 :: jsstring where "r6 = [0x36]"
definition r7 :: jsstring where "r7 = [0x37]"
definition r8 :: jsstring where "r8 = [0x38]"
definition r9 :: jsstring where "r9 = [0x39]"
definition r10 :: jsstring where "r10 = [0x31, 0x30]"
definition rJ :: jsstring where "rJ = [0x4A]"
definition rQ :: jsstring where "rQ = [0x51]"
definition rK :: jsstring where "rK = [0x4B]"

text \<open>
  \<^verbatim>\<open>slice\<close> of strings and arrays: a negative index counts from the end, and
  both indices are clamped to the length.
\<close>

definition relIndex :: "int \<Rightarrow> nat \<Rightarrow> nat" where
  "relIndex k n = (if k < 0 then nat (max (int n + k) 0) else min (nat k) n)"

definition slice :: "'a list \<Rightarrow> int \<Rightarrow> int \<Rightarrow> 'a list" where
  "slice xs start fin =
     (let from = relIndex start (length xs); to = relIndex fin (length xs)
      in take (to - from) (drop from xs))"

definition sliceFrom :: "'a list \<Rightarrow> int \<Rightarrow> 'a list" where
  "sliceFrom xs start = drop (relIndex start (length xs)) xs"

datatype color = Red | Black

text \<open>
  \<^verbatim>\<open>interface ParsedCard\<close>. The field \<^verbatim>\<open>value\<close> is \<open>val\<close> here; it is
  \<open>None\<close> where the lookup in \<^verbatim>\<open>CARD_VALUES\<close> yields \<^verbatim>\<open>undefined\<close>.
\<close>

record ParsedCard =
  original :: jsstring
  rank :: jsstring
  suit :: jsstring
  val :: "int option"
  color :: color

definition CARD_VALUES :: "jsstring \<rightharpoonup> int" where
  "CARD_VALUES = map_of
     [(rA, 1), (r2, 2), (r3, 3), (r4, 4), (r5, 5), (r6, 6), (r7, 7), (r8, 8), (r9, 9),
      (r10, 10), (rJ, 11), (rQ, 12), (rK, 13)]"

definition RANK_ORDER :: "jsstring list" where
  "RANK_ORDER = [rA, r2, r3, r4, r5, r6, r7, r8, r9, r10, rJ, rQ, rK]"

definition getCardColor :: "jsstring \<Rightarrow> color" where
  "getCardColor s = (if s = HEART \<or> s = DIAMOND then Red else Black)"

definition parseCard :: "jsstring \<Rightarrow> ParsedCard" where
  "parseCard cardStr =
     (let s = sliceFrom cardStr (-1);
          r = (if length cardStr = 3 then r10 else slice cardStr 0 (-1))
      in \<lparr>original = cardStr, rank = r, suit = s, val = CARD_VALUES r, color = getCardColor s\<rparr>)"

section \<open>Meld validation\<close>

definition isSet :: "ParsedCard list \<Rightarrow> bool" where
  "isSet cards =
     (if length cards < 3 \<or> length cards > 4 then False
      else let firstRank = rank (cards ! 0) in
        if \<not> list_all (\<lambda>card. rank card = firstRank) cards then False
        else let redCount = length (filter (\<lambda>card. color card = Red) cards);
                 blackCount = length (filter (\<lambda>card. color card = Black) cards)
             in if length cards = 3
                then (redCount = 2 \<and> blackCount = 1) \<or> (redCount = 1 \<and> blackCount = 2)
                else if length cards = 4 then redCount = 2 \<and> blackCount = 2
                else False)"

text \<open>
  The comparator \<^verbatim>\<open>(a, b) => a.value - b.value\<close>: the difference of two numbers,
  and \<^verbatim>\<open>NaN\<close> (\<open>None\<close>) as soon as one value is \<^verbatim>\<open>undefined\<close>.
\<close>

definition byValue :: "ParsedCard \<Rightarrow> ParsedCard \<Rightarrow> int option" where
  "byValue a b = (case (val a, val b) of (Some x, Some y) \<Rightarrow> Some (x - y) | _ \<Rightarrow> None)"

text \<open>
  \<^verbatim>\<open>Array.prototype.sort\<close> is stable, and it reads a comparator result of
  \<^verbatim>\<open>NaN\<close> as \<open>0\<close>. When every value is defined the comparator is a consistent
  ordering and the language fixes the result: the stable sort by value, which the
  insertion sort below computes. With an undefined value the language leaves the order to
  the implementation; such values only arise from tokens outside the 52 that
  \<open>createDeck\<close> emits.
\<close>

fun insertBy :: "('a \<Rightarrow> 'a \<Rightarrow> int option) \<Rightarrow> 'a \<Rightarrow> 'a list \<Rightarrow> 'a list" where
  "insertBy cmp x [] = [x]"
| "insertBy cmp x (y # ys) =
     (if (case cmp x y of Some d \<Rightarrow> d > 0 | None \<Rightarrow> False) then y # insertBy cmp x ys
      else x # y # ys)"

definition sortBy :: "('a \<Rightarrow> 'a \<Rightarrow> int option) \<Rightarrow> 'a list \<Rightarrow> 'a list" where
  "sortBy cmp xs = foldr (insertBy cmp) xs []"

text \<open>
  The loop \<^verbatim>\<open>for (let i = 1; i < sortedCards.length; i++)\<close> of \<open>isRun\<close>:
  it compares each card with its predecessor and stops at the first pair that is not
  consecutive. \<^verbatim>\<open>x !== y + 1\<close> holds whenever \<^verbatim>\<open>x\<close> or \<^verbatim>\<open>y\<close> is
  \<^verbatim>\<open>undefined\<close>.
\<close>

definition notNext :: "int option \<Rightarrow> int option \<Rightarrow> bool" where
  "notNext x y = (case (x, y) of (Some a, Some b) \<Rightarrow> a \<noteq> b + 1 | _ \<Rightarrow> True)"

fun standardSequence :: "ParsedCard list \<Rightarrow> bool" where
  "standardSequence (a # b # rest) =
     (if notNext (val b) (val a) then False else standardSequence (b # rest))"
| "standardSequence _ = True"

definition isRun :: "ParsedCard list \<Rightarrow> bool" where
  "isRun cards =
     (if length cards < 3 then False
      else let firstSuit = suit (cards ! 0) in
        if \<not> list_all (\<lambda>card. suit card = firstSuit) cards then False
        else let sortedCards = sortBy byValue cards in
          if standardSequence sortedCards then True
          else let hasAce = list_ex (\<lambda>c. rank c = rA) sortedCards in
            if hasAce then
              (let nonAceRanks = map rank (filter (\<lambda>c. rank c \<noteq> rA) sortedCards) in
                 if length nonAceRanks = length sortedCards - 1 then
                   (let expectedHighRanks =
                          sliceFrom RANK_ORDER (- (int (length sortedCards) - 1))
                    in length nonAceRanks = length expectedHighRanks \<and>
                       list_all (\<lambda>idx. nonAceRanks ! idx = expectedHighRanks ! idx)
                         [0 ..< length nonAceRanks])
                 else False)
            else False)"

section \<open>Combinations\<close>

text \<open>
  \<^verbatim>\<open>backtrack(startIndex, currentCombination)\<close> of \<^verbatim>\<open>getCombinations\<close>,
  on the part of the array from \<^verbatim>\<open>startIndex\<close> on; the result is what the call
  pushes to \<^verbatim>\<open>result\<close>, in order.
\<close>

fun backtrack :: "nat \<Rightarrow> 'a list \<Rightarrow> 'a list \<Rightarrow> 'a list list" where
  "backtrack k [] cur = (if length cur = k then [cur] else [])"
| "backtrack k (x # xs) cur =
     (if length cur = k then [cur]
      else backtrack k xs (cur @ [x]) @ backtrack k xs cur)"

definition getCombinations :: "'a list \<Rightarrow> nat \<Rightarrow> 'a list list" where
  "getCombinations array k = backtrack k array []"

section \<open>Winning condition\<close>

definition MIN_CARDS_PER_PLAYER :: nat where
  "MIN_CARDS_PER_PLAYER = 13"

definition allPossibleMelds :: "ParsedCard list \<Rightarrow> nat \<Rightarrow> ParsedCard list list" where
  "allPossibleMelds cards sz =
     (if length cards < sz then []
      else filter (\<lambda>combo. isSet combo \<or> isRun combo) (getCombinations cards sz))"

text \<open>
  The inner loop over \<^verbatim>\<open>m3_two\<close>: the two melds are disjoint when no
  \<^verbatim>\<open>original\<close> of the second is in the \<^verbatim>\<open>Set\<close> of the first's.
\<close>

definition areDisjoint :: "ParsedCard list \<Rightarrow> ParsedCard list \<Rightarrow> bool" where
  "areDisjoint m3_one m3_two =
     (let m3_one_originals = set (map original m3_one)
      in \<not> list_ex (\<lambda>cardInM3Two. original cardInM3Two \<in> m3_one_originals) m3_two)"

text \<open>
  The loop over \<^verbatim>\<open>combosOfTwoMeld3\<close>. Every element has two entries
  (lemma \<open>backtrack_length\<close>), so the last case of the pattern match is never taken.
\<close>

fun pairLoop :: "ParsedCard list list list \<Rightarrow> bool" where
  "pairLoop [] = False"
| "pairLoop ([m3_one, m3_two] # rest) =
     (if areDisjoint m3_one m3_two then True else pairLoop rest)"
| "pairLoop (_ # rest) = pairLoop rest"

definition remainingCardsAfterMeld4 :: "ParsedCard list \<Rightarrow> ParsedCard list \<Rightarrow> ParsedCard list" where
  "remainingCardsAfterMeld4 hand meld4 =
     (let meld4Originals = set (map original meld4)
      in filter (\<lambda>card. original card \<notin> meld4Originals) hand)"

fun meld4Loop :: "ParsedCard list \<Rightarrow> ParsedCard list list \<Rightarrow> bool" where
  "meld4Loop hand [] = False"
| "meld4Loop hand (meld4 # rest) =
     (let remaining = remainingCardsAfterMeld4 hand meld4 in
        if length remaining \<noteq> MIN_CARDS_PER_PLAYER - 4 then meld4Loop hand rest
        else let meldsOf3FromRemaining = allPossibleMelds remaining 3 in
          if length meldsOf3FromRemaining < 2 then meld4Loop hand rest
          else if pairLoop (getCombinations meldsOf3FromRemaining 2) then True
          else meld4Loop hand rest)"

definition checkWinningCondition :: "jsstring list \<Rightarrow> bool" where
  "checkWinningCondition handStrings =
     (if length handStrings \<noteq> MIN_CARDS_PER_PLAYER then False
      else let hand = map parseCard handStrings
           in meld4Loop hand (allPossibleMelds hand 4))"

section \<open>Deck construction\<close>

definition deckSuits :: "jsstring list" where
  "deckSuits = [SPADE, HEART, DIAMOND, CLUB]"

definition deckValues :: "jsstring list" where
  "deckValues = [rA, r2, r3, r4, r5, r6, r7, r8, r9, r10, rJ, rQ, rK]"

text \<open>
  The three nested loops of \<^verbatim>\<open>createDeck\<close>: for each deck, for each suit, for
  each value, push \<^verbatim>\<open>value + suit\<close>.
\<close>

definition unshuffledDeck :: "nat \<Rightarrow> jsstring list" where
  "unshuffledDeck numDecks =
     concat (map (\<lambda>d. concat (map (\<lambda>suit. map (\<lambda>v. v @ suit) deckValues) deckSuits))
       [0 ..< numDecks])"

text \<open>
  The shuffle loop \<^verbatim>\<open>for (let i = newDeck.length - 1; i > 0; i--)\<close>.
  \<^verbatim>\<open>Math.random\<close> is a parameter: \<open>rnd c\<close> is what its call number \<open>c\<close>
  returns, a number in \<open>[0, 1)\<close>. The swap assigns \<^verbatim>\<open>newDeck[i]\<close> first and
  \<^verbatim>\<open>newDeck[j]\<close> second, both from the values read before.
\<close>

fun shuffleLoop :: "(nat \<Rightarrow> real) \<Rightarrow> nat \<Rightarrow> nat \<Rightarrow> 'a list \<Rightarrow> 'a list" where
  "shuffleLoop rnd c 0 newDeck = newDeck"
| "shuffleLoop rnd c (Suc i') newDeck =
     (let i = Suc i';
          j = nat \<lfloor>rnd c * real (i + 1)\<rfloor>
      in shuffleLoop rnd (Suc c) i' (newDeck[i := newDeck ! j, j := newDeck ! i]))"

definition createDeck :: "(nat \<Rightarrow> real) \<Rightarrow> int \<Rightarrow> jsstring list" where
  "createDeck rnd numberOfPlayersForThisGame =
     (let numDecks = nat (max 1 \<lceil>real_of_int numberOfPlayersForThisGame / 2\<rceil>);
          newDeck = unshuffledDeck numDecks
      in shuffleLoop rnd 0 (length newDeck - 1) newDeck)"

section \<open>Table state and the turn commands\<close>

datatype slot = Bottom | Top | Left | Right

record Position =
  posTop :: "jsstring option"
  posBottom :: "jsstring option"
  posLeft :: "jsstring option"
  posRight :: "jsstring option"
  posTransform :: "jsstring option"

text \<open>\<^verbatim>\<open>interface Player\<close>; the field \<^verbatim>\<open>id\<close> is \<open>pid\<close>.\<close>

record Player =
  pid :: int
  name :: jsstring
  cards :: "jsstring list"
  slot :: slot
  position :: Position

text \<open>\<^verbatim>\<open>interface DiscardedCard\<close>; the field \<^verbatim>\<open>card\<close> is \<open>discarded\<close>.\<close>

record DiscardedCard =
  playerId :: int
  discarded :: jsstring

text \<open>
  The state of the component \<^verbatim>\<open>ConcorGame\<close>. Between two commands the two refs
  hold the current \<^verbatim>\<open>players\<close> and \<^verbatim>\<open>currentPlayer\<close>, so reading a ref
  is reading the field. The flag \<^verbatim>\<open>canDeclare\<close> is recomputed from the other fields
  by the effects and read by the view only; it is not a field here, and neither are the
  alerts.
\<close>

record Table =
  players :: "Player list"
  discardedCards :: "DiscardedCard list"
  deck :: "jsstring list"
  currentPlayer :: nat
  draggedCardIndex :: "nat option"
  winner :: "Player option"

definition MAX_CARDS_PER_PLAYER_LOGIC :: nat where
  "MAX_CARDS_PER_PLAYER_LOGIC = 14"

text \<open>
  A handler returns nothing; the model returns the state it leaves and which way it left:
  \<open>Accepted\<close> when it ran to its state updates, \<open>Rejected\<close> with the reason at each
  early \<^verbatim>\<open>return\<close>.
\<close>

datatype rejection =
  GameOver | DeckEmpty | NoActivePlayer | HandSizeCap | Dragging | IndexOutOfRange
  | InvalidDiscardState | InvalidSkipState | InvalidDeclareState

datatype outcome = Accepted | Rejected rejection

text \<open>\<^verbatim>\<open>xs[i]\<close>: \<^verbatim>\<open>undefined\<close> (\<open>None\<close>) out of range.\<close>

definition elemAt :: "'a list \<Rightarrow> nat \<Rightarrow> 'a option" where
  "elemAt xs i = (if i < length xs then Some (xs ! i) else None)"

text \<open>\<^verbatim>\<open>xs.map((x, index) => ...)\<close> and \<^verbatim>\<open>xs.filter((x, index) => ...)\<close>.\<close>

definition mapIndexed :: "('a \<Rightarrow> nat \<Rightarrow> 'b) \<Rightarrow> 'a list \<Rightarrow> 'b list" where
  "mapIndexed f xs = map (\<lambda>(x, index). f x index) (zip xs [0 ..< length xs])"

definition filterIndexed :: "('a \<Rightarrow> nat \<Rightarrow> bool) \<Rightarrow> 'a list \<Rightarrow> 'a list" where
  "filterIndexed p xs = map fst (filter (\<lambda>(x, index). p x index) (zip xs [0 ..< length xs]))"

definition drawCard :: "Table \<Rightarrow> outcome \<times> Table" where
  "drawCard t =
     (if winner t \<noteq> None then (Rejected GameOver, t)
      else let currentPlayersArray = players t;
               currentPlayerIdx = currentPlayer t;
               currentPlayerData = elemAt currentPlayersArray currentPlayerIdx
        in if length (deck t) = 0 then (Rejected DeckEmpty, t)
           else case currentPlayerData of
             None \<Rightarrow> (Rejected NoActivePlayer, t)
           | Some p \<Rightarrow>
               if length (cards p) \<ge> MAX_CARDS_PER_PLAYER_LOGIC then (Rejected HandSizeCap, t)
               else let newCard = deck t ! 0;
                        updatedPlayers =
                          mapIndexed (\<lambda>player index.
                              if index = currentPlayerIdx
                              then player\<lparr>cards := cards player @ [newCard]\<rparr>
                              else player)
                            currentPlayersArray
                    in (Accepted, t\<lparr>deck := sliceFrom (deck t) 1, players := updatedPlayers\<rparr>))"

text \<open>
  \<^verbatim>\<open>!currentPlayerData.cards[cardIndexToDiscard]\<close> holds when the index is out of
  range and when the token there is the empty string.
\<close>

definition discardCard :: "nat \<Rightarrow> Table \<Rightarrow> outcome \<times> Table" where
  "discardCard cardIndexToDiscard t =
     (if winner t \<noteq> None then (Rejected GameOver, t)
      else if draggedCardIndex t \<noteq> None then (Rejected Dragging, t)
      else let currentPlayersArray = players t;
               currentPlayerIdx = currentPlayer t
        in case elemAt currentPlayersArray currentPlayerIdx of
             None \<Rightarrow> (Rejected NoActivePlayer, t)
           | Some currentPlayerData \<Rightarrow>
               (case elemAt (cards currentPlayerData) cardIndexToDiscard of
                  None \<Rightarrow> (Rejected IndexOutOfRange, t)
                | Some discardedItem \<Rightarrow>
                    if discardedItem = [] then (Rejected IndexOutOfRange, t)
                    else if length (cards currentPlayerData) \<le> MIN_CARDS_PER_PLAYER
                      then (Rejected InvalidDiscardState, t)
                    else let updatedPlayerList =
                               mapIndexed (\<lambda>p index.
                                   if index = currentPlayerIdx
                                   then p\<lparr>cards :=
                                          filterIndexed (\<lambda>_ i. i \<noteq> cardIndexToDiscard) (cards p)\<rparr>
                                   else p)
                                 currentPlayersArray;
                             afterDiscard = elemAt updatedPlayerList currentPlayerIdx;
                             handAfter = (case afterDiscard of
                                            Some playerAfterDiscard \<Rightarrow> Some (cards playerAfterDiscard)
                                          | None \<Rightarrow> None);
                             advanceTurn =
                               (case handAfter of
                                  None \<Rightarrow> True
                                | Some h \<Rightarrow>
                                    if length h = MIN_CARDS_PER_PLAYER
                                    then (if checkWinningCondition h then False else True)
                                    else if length h > MIN_CARDS_PER_PLAYER then False
                                    else True);
                             t1 = t\<lparr>players := updatedPlayerList,
                                      discardedCards := discardedCards t @
                                        [\<lparr>playerId = pid currentPlayerData,
                                          discarded = discardedItem\<rparr>]\<rparr>
                         in if advanceTurn \<and>
                               (case handAfter of None \<Rightarrow> False
                                | Some h \<Rightarrow> length h = MIN_CARDS_PER_PLAYER)
                            then (Accepted, t1\<lparr>currentPlayer :=
                                     (currentPlayer t + 1) mod length updatedPlayerList\<rparr>)
                            else (Accepted, t1)))"

definition skipTurn :: "Table \<Rightarrow> outcome \<times> Table" where
  "skipTurn t =
     (if winner t \<noteq> None then (Rejected GameOver, t)
      else let latestPlayersArray = players t;
               latestPlayerIdx = currentPlayer t
        in case elemAt latestPlayersArray latestPlayerIdx of
             None \<Rightarrow> (Rejected NoActivePlayer, t)
           | Some playerState \<Rightarrow>
               if length (cards playerState) = MIN_CARDS_PER_PLAYER then
                 (if checkWinningCondition (cards playerState) then (Rejected InvalidSkipState, t)
                  else (Accepted,
                        t\<lparr>currentPlayer := (currentPlayer t + 1) mod length latestPlayersArray\<rparr>))
               else (Rejected InvalidSkipState, t))"

definition declareWin :: "Table \<Rightarrow> outcome \<times> Table" where
  "declareWin t =
     (if winner t \<noteq> None then (Rejected GameOver, t)
      else case elemAt (players t) (currentPlayer t) of
             None \<Rightarrow> (Rejected InvalidDeclareState, t)
           | Some player \<Rightarrow>
               if length (cards player) = MIN_CARDS_PER_PLAYER \<and> checkWinningCondition (cards player)
               then (Accepted, t\<lparr>winner := Some player\<rparr>)
               else (Rejected InvalidDeclareState, t))"

text \<open>The four commands a player can issue, and a sequence of them run in order.\<close>

datatype command = Draw | Discard nat | Skip | Declare

fun step :: "command \<Rightarrow> Table \<Rightarrow> outcome \<times> Table" where
  "step Draw t = drawCard t"
| "step (Discard i) t = discardCard i t"
| "step Skip t = skipTurn t"
| "step Declare t = declareWin t"

fun run :: "command list \<Rightarrow> Table \<Rightarrow> outcome list \<times> Table" where
  "run [] t = ([], t)"
| "run (c # cs) t =
     (let (r, t1) = step c t; (rs, t2) = run cs t1 in (r # rs, t2))"

section \<open>The specification's notions\<close>

text \<open>Colour counts of a group, and groups of one rank or one colour.\<close>

definition countColor :: "color \<Rightarrow> ParsedCard list \<Rightarrow> nat" where
  "countColor col grp = length (filter (\<lambda>c. color c = col) grp)"

definition sameRank :: "ParsedCard list \<Rightarrow> bool" where
  "sameRank grp = (\<forall>a\<in>set grp. \<forall>b\<in>set grp. rank a = rank b)"

definition sameColor :: "ParsedCard list \<Rightarrow> bool" where
  "sameColor grp = (\<forall>a\<in>set grp. \<forall>b\<in>set grp. color a = color b)"

text \<open>
  A set as the specification words it: three or four cards of one rank, split 2-1 or 1-2
  between red and black when three, 2-2 when four.
\<close>

definition set_spec :: "ParsedCard list \<Rightarrow> bool" where
  "set_spec grp =
     ((length grp = 3 \<or> length grp = 4) \<and> sameRank grp \<and>
      (length grp = 3 \<longrightarrow>
         (countColor Red grp = 2 \<and> countColor Black grp = 1) \<or>
         (countColor Red grp = 1 \<and> countColor Black grp = 2)) \<and>
      (length grp = 4 \<longrightarrow> countColor Red grp = 2 \<and> countColor Black grp = 2))"

text \<open>
  A group of tokens is a meld when its parsed cards pass \<open>isSet\<close> or \<open>isRun\<close>, the
  test of \<^verbatim>\<open>allPossibleMelds\<close>.
\<close>

definition meld :: "jsstring list \<Rightarrow> bool" where
  "meld ts = (isSet (map parseCard ts) \<or> isRun (map parseCard ts))"

text \<open>
  A winning decomposition with cards told apart by token only: some four cards of the hand,
  in hand order, form a meld; dropping every card whose token occurs among them leaves nine
  cards; and among those two melds of three cards have no token in common.
\<close>

definition tokenWin :: "jsstring list \<Rightarrow> bool" where
  "tokenWin hand =
     (\<exists>m4\<in>set (subseqs hand). length m4 = 4 \<and> meld m4 \<and>
        (let rest = filter (\<lambda>t. t \<notin> set m4) hand
         in length rest = 9 \<and>
            (\<exists>a\<in>set (subseqs rest). \<exists>b\<in>set (subseqs rest).
               length a = 3 \<and> length b = 3 \<and> meld a \<and> meld b \<and> set a \<inter> set b = {})))"

text \<open>
  A winning decomposition with cards told apart by their position in the hand: a set
  \<open>I\<close> of four positions holds a meld, and among the nine cards at the other positions two
  disjoint sets of three positions hold melds. Nothing is asked of the last three cards.
\<close>

definition physicalWin :: "jsstring list \<Rightarrow> bool" where
  "physicalWin hand =
     (\<exists>I\<in>Pow {..<length hand}. card I = 4 \<and> meld (nths hand I) \<and>
        (let rest = nths hand (- I)
         in \<exists>J\<in>Pow {..<length rest}. \<exists>K\<in>Pow {..<length rest}.
              card J = 3 \<and> card K = 3 \<and> J \<inter> K = {} \<and>
              meld (nths rest J) \<and> meld (nths rest K)))"

text \<open>Two melds of three cards among \<open>rest\<close> that \<open>areDisjoint\<close> accepts.\<close>

definition twoDisjointMelds :: "ParsedCard list \<Rightarrow> bool" where
  "twoDisjointMelds rest =
     (\<exists>a\<in>set (allPossibleMelds rest 3). \<exists>b\<in>set (allPossibleMelds rest 3). areDisjoint a b)"

text \<open>
  A search that returns the same list as filtering \<open>backtrack\<close> (lemma
  \<open>filter_backtrack\<close>) but abandons a partial combination as soon as \<open>Q\<close> fails;
  it is used to evaluate \<open>allPossibleMelds\<close> on concrete hands.
\<close>

fun meldSearch :: "('a list \<Rightarrow> bool) \<Rightarrow> ('a list \<Rightarrow> bool) \<Rightarrow> nat \<Rightarrow> 'a list \<Rightarrow> 'a list \<Rightarrow> 'a list list" where
  "meldSearch Q P k [] cur = (if length cur = k \<and> P cur then [cur] else [])"
| "meldSearch Q P k (x # xs) cur =
     (if length cur = k then (if P cur then [cur] else [])
      else (if Q (cur @ [x]) then meldSearch Q P k xs (cur @ [x]) else []) @ meldSearch Q P k xs cur)"

definition oneSuitOrRank :: "ParsedCard list \<Rightarrow> bool" where
  "oneSuitOrRank c = (case c of [] \<Rightarrow> True
     | a # r \<Rightarrow> list_all (\<lambda>d. suit d = suit a) r \<or> list_all (\<lambda>d. rank d = rank a) r)"

text \<open>
  Three example hands of 13 cards. The first and the third can be dealt from the two decks
  of a four-player game: each holds the seven of spades twice. The second has 13 different
  tokens.
\<close>

definition dupHand :: "jsstring list" where
  "dupHand =
     [r4 @ SPADE, r5 @ SPADE, r6 @ SPADE, r7 @ SPADE, r7 @ SPADE,
      rA @ HEART, r2 @ HEART, r3 @ HEART,
      r5 @ DIAMOND, r6 @ DIAMOND, r7 @ DIAMOND, r9 @ CLUB, rJ @ CLUB]"

definition winHand :: "jsstring list" where
  "winHand =
     [r4 @ SPADE, r5 @ SPADE, r6 @ SPADE, r7 @ SPADE, r9 @ SPADE,
      rA @ HEART, r2 @ HEART, r3 @ HEART,
      r5 @ DIAMOND, r6 @ DIAMOND, r7 @ DIAMOND, r9 @ CLUB, rJ @ CLUB]"

definition twinHand :: "jsstring list" where
  "twinHand =
     [r7 @ SPADE, r7 @ SPADE, r7 @ DIAMOND, r7 @ HEART,
      rA @ HEART, r2 @ HEART, r3 @ HEART,
      r4 @ CLUB, r5 @ CLUB, r6 @ CLUB, r9 @ SPADE, rJ @ DIAMOND, rK @ CLUB]"

text \<open>
  The game is in progress when no winner is set and the current-player index points at a
  player, the active player.
\<close>

definition inProgress :: "Table \<Rightarrow> bool" where
  "inProgress t = (winner t = None \<and> currentPlayer t < length (players t))"

definition activePlayer :: "Table \<Rightarrow> Player" where
  "activePlayer t = players t ! currentPlayer t"

definition activeHand :: "Table \<Rightarrow> jsstring list" where
  "activeHand t = cards (activePlayer t)"

text \<open>The players with the active player's hand replaced, every other player as before.\<close>

definition withActiveHand :: "Table \<Rightarrow> jsstring list \<Rightarrow> Player list" where
  "withActiveHand t h = (players t)[currentPlayer t := (activePlayer t)\<lparr>cards := h\<rparr>]"

text \<open>The current-player index advanced by one modulo the player count.\<close>

definition nextPlayer :: "Table \<Rightarrow> nat" where
  "nextPlayer t = (currentPlayer t + 1) mod length (players t)"

text \<open>An example table of two players, and the same table at other moments of a game.\<close>

definition seat :: "int \<Rightarrow> jsstring list \<Rightarrow> Player" where
  "seat n h =
     \<lparr>pid = n, name = [], cards = h, slot = Bottom,
      position = \<lparr>posTop = None, posBottom = None, posLeft = None, posRight = None,
                  posTransform = None\<rparr>\<rparr>"

definition exampleTable :: Table where
  "exampleTable =
     \<lparr>players = [seat 1 winHand, seat 2 dupHand], discardedCards = [],
      deck = [r8 @ CLUB, rK @ HEART], currentPlayer = 0, draggedCardIndex = None,
      winner = None\<rparr>"

definition discardTable :: Table where
  "discardTable =
     exampleTable\<lparr>players := [seat 1 winHand, seat 2 (dupHand @ [r8 @ CLUB])],
       deck := [rK @ HEART], currentPlayer := 1\<rparr>"

text \<open>The 52 canonical tokens: every rank of \<open>RANK_ORDER\<close> with every suit.\<close>

definition canonicalTokens :: "jsstring list" where
  "canonicalTokens =
     concat (map (\<lambda>s. map (\<lambda>r. r @ s) RANK_ORDER) [SPADE, HEART, DIAMOND, CLUB])"

text \<open>
  A run as the specification words it. The values are strictly consecutive when every
  card has a value and the values, sorted ascending, go up by one from each position to
  the next. A group is Ace-high when it holds exactly one Ace and the ranks of its other
  cards are exactly the topmost ranks of the order below Ace, as many as there are other
  cards. The Ace-high reading is only consulted when the values are not consecutive.
\<close>

definition sameSuit :: "ParsedCard list \<Rightarrow> bool" where
  "sameSuit grp = (\<forall>a\<in>set grp. \<forall>b\<in>set grp. suit a = suit b)"

definition consecutive :: "int list \<Rightarrow> bool" where
  "consecutive vs = (\<forall>i\<in>{0 ..< length vs - 1}. vs ! (i + 1) = vs ! i + 1)"

definition cardValue :: "ParsedCard \<Rightarrow> int" where
  "cardValue c = the (val c)"

definition consecutiveValues :: "ParsedCard list \<Rightarrow> bool" where
  "consecutiveValues grp =
     ((\<forall>c\<in>set grp. val c \<noteq> None) \<and> consecutive (sort (map cardValue grp)))"

definition topRanksBelowAce :: "nat \<Rightarrow> jsstring list" where
  "topRanksBelowAce k = drop (12 - k) [r2, r3, r4, r5, r6, r7, r8, r9, r10, rJ, rQ, rK]"

definition aceHigh :: "ParsedCard list \<Rightarrow> bool" where
  "aceHigh grp =
     (length (filter (\<lambda>c. rank c = rA) grp) = 1 \<and>
      mset (map rank (filter (\<lambda>c. rank c \<noteq> rA) grp)) = mset (topRanksBelowAce (length grp - 1)))"

definition run_spec :: "ParsedCard list \<Rightarrow> bool" where
  "run_spec grp =
     (3 \<le> length grp \<and> sameSuit grp \<and>
      (consecutiveValues grp \<or> (\<not> consecutiveValues grp \<and> aceHigh grp)))"

definition rankValue :: "jsstring \<Rightarrow> int" where
  "rankValue r = the (CARD_VALUES r)"

text \<open>The condition of the Ace-high branch of \<open>isRun\<close>, on the sorted cards.\<close>

definition aceBranch :: "ParsedCard list \<Rightarrow> bool" where
  "aceBranch sortedCards =
     (list_ex (\<lambda>c. rank c = rA) sortedCards \<and>
      length (filter (\<lambda>c. rank c \<noteq> rA) sortedCards) = length sortedCards - 1 \<and>
      map rank (filter (\<lambda>c. rank c \<noteq> rA) sortedCards) =
        sliceFrom RANK_ORDER (- (int (length sortedCards) - 1)))"

section \<open>Properties of the meld classifier\<close>

lemmas token_defs =
  SPADE_def HEART_def DIAMOND_def CLUB_def
  rA_def r2_def r3_def r4_def r5_def r6_def r7_def r8_def r9_def r10_def rJ_def rQ_def rK_def

lemmas parse_defs =
  parseCard_def getCardColor_def CARD_VALUES_def sliceFrom_def slice_def relIndex_def Let_def

lemma all_rank_first:
  assumes "grp \<noteq> []"
  shows "list_all (\<lambda>card. rank card = rank (grp ! 0)) grp = sameRank grp"
proof -
  from assms have "grp ! 0 \<in> set grp" by (cases grp) auto
  then show ?thesis unfolding sameRank_def list_all_iff by metis
qed

lemma countColor_total: "countColor Red grp + countColor Black grp = length grp"
proof (induction grp)
  case Nil
  then show ?case by (simp add: countColor_def)
next
  case (Cons c cs)
  then show ?case by (cases "color c") (simp_all add: countColor_def)
qed

lemma sameColor_count:
  assumes "sameColor grp"
  shows "countColor Red grp = 0 \<or> countColor Black grp = 0"
proof (cases grp)
  case Nil
  then show ?thesis by (simp add: countColor_def)
next
  case (Cons c cs)
  then have "c \<in> set grp" by simp
  with assms have all: "\<forall>a\<in>set grp. color a = color c"
    unfolding sameColor_def by blast
  show ?thesis
  proof (cases "color c")
    case Red
    with all have "filter (\<lambda>a. color a = Black) grp = []" by (auto simp: filter_empty_conv)
    then show ?thesis by (simp add: countColor_def)
  next
    case Black
    with all have "filter (\<lambda>a. color a = Red) grp = []" by (auto simp: filter_empty_conv)
    then show ?thesis by (simp add: countColor_def)
  qed
qed

lemma isSet_set_spec: "isSet grp = set_spec grp"
proof (cases "length grp < 3 \<or> length grp > 4")
  case True
  then show ?thesis by (auto simp: isSet_def set_spec_def)
next
  case False
  then have ne: "grp \<noteq> []" and len: "length grp = 3 \<or> length grp = 4" by auto
  from len show ?thesis
    by (auto simp: isSet_def set_spec_def Let_def all_rank_first [OF ne] countColor_def)
qed

text \<open>
  Claim C4. \<open>isSet\<close> holds of a group of parsed cards exactly when the group has 3 or 4
  cards, all of one rank, with the red and black counts 2-1 or 1-2 for three cards and 2-2
  for four. In particular it rejects three cards of one rank that all have the same colour.
\<close>

theorem isSet_iff:
  "isSet grp = set_spec grp \<and>
   (length grp = 3 \<and> sameRank grp \<and> sameColor grp \<longrightarrow> \<not> isSet grp)"
proof -
  have "\<not> set_spec grp" if "length grp = 3" "sameColor grp"
    using sameColor_count [OF that(2)] countColor_total [of grp] that(1)
    by (auto simp: set_spec_def)
  then show ?thesis by (auto simp: isSet_set_spec)
qed

theorem isSet_iff_witness:
  "isSet (map parseCard [rK @ HEART, rK @ DIAMOND, rK @ SPADE]) \<and>
   set_spec (map parseCard [rK @ HEART, rK @ DIAMOND, rK @ SPADE]) \<and>
   length (map parseCard [r7 @ SPADE, r7 @ CLUB, r7 @ SPADE]) = 3 \<and>
   sameRank (map parseCard [r7 @ SPADE, r7 @ CLUB, r7 @ SPADE]) \<and>
   sameColor (map parseCard [r7 @ SPADE, r7 @ CLUB, r7 @ SPADE]) \<and>
   \<not> isSet (map parseCard [r7 @ SPADE, r7 @ CLUB, r7 @ SPADE])"
  using isSet_iff [of "map parseCard [rK @ HEART, rK @ DIAMOND, rK @ SPADE]"]
    isSet_iff [of "map parseCard [r7 @ SPADE, r7 @ CLUB, r7 @ SPADE]"]
  by (simp add: set_spec_def sameRank_def sameColor_def countColor_def parse_defs token_defs)

section \<open>Properties of the combination generator and the win evaluator\<close>

lemma backtrack_set:
  "length cur \<le> k \<Longrightarrow>
   set (backtrack k xs cur) = {cur @ ys | ys. subseq ys xs \<and> length ys = k - length cur}"
proof (induction xs arbitrary: cur)
  case Nil
  then show ?case by (auto dest: list_emb_Nil2)
next
  case (Cons x xs)
  show ?case
  proof (cases "length cur = k")
    case True
    then show ?thesis by auto
  next
    case False
    with Cons.prems have lt: "length cur < k" by simp
    then have l1: "length (cur @ [x]) \<le> k" by simp
    have "set (backtrack k (x # xs) cur) =
          set (backtrack k xs (cur @ [x])) \<union> set (backtrack k xs cur)"
      using False by simp
    also have "\<dots> = {(cur @ [x]) @ ys | ys. subseq ys xs \<and> length ys = k - length (cur @ [x])}
                  \<union> {cur @ ys | ys. subseq ys xs \<and> length ys = k - length cur}"
      using Cons.IH [OF l1] Cons.IH [OF Cons.prems] by simp
    also have "\<dots> = {cur @ ys | ys. subseq ys (x # xs) \<and> length ys = k - length cur}"
      (is "?A \<union> ?B = ?C")
    proof (intro set_eqI iffI)
      fix z assume "z \<in> ?A \<union> ?B"
      then show "z \<in> ?C"
      proof
        assume "z \<in> ?A"
        then obtain ys where "z = (cur @ [x]) @ ys" "subseq ys xs" "length ys = k - length (cur @ [x])"
          by blast
        with lt have "z = cur @ (x # ys)" "subseq (x # ys) (x # xs)" "length (x # ys) = k - length cur"
          by auto
        then show ?thesis by blast
      next
        assume "z \<in> ?B"
        then obtain ys where "z = cur @ ys" "subseq ys xs" "length ys = k - length cur" by blast
        then have "subseq ys (x # xs)" by auto
        with \<open>z = cur @ ys\<close> \<open>length ys = k - length cur\<close> show ?thesis by blast
      qed
    next
      fix z assume "z \<in> ?C"
      then obtain ys where z: "z = cur @ ys" and sub: "subseq ys (x # xs)"
        and len: "length ys = k - length cur" by blast
      show "z \<in> ?A \<union> ?B"
      proof (cases "subseq ys xs")
        case True
        with z len show ?thesis by blast
      next
        case False
        with sub obtain ys' where ys: "ys = x # ys'" and sub': "subseq ys' xs"
          by (cases ys) (auto split: if_splits)
        from len ys lt have "length ys' = k - length (cur @ [x])" by simp
        moreover from z ys have "z = (cur @ [x]) @ ys'" by simp
        ultimately have "z \<in> ?A" using sub' by blast
        then show ?thesis by simp
      qed
    qed
    finally show ?thesis .
  qed
qed

lemma getCombinations_set:
  "set (getCombinations xs k) = {ys. subseq ys xs \<and> length ys = k}"
  by (simp add: getCombinations_def backtrack_set)

lemma subseq_length_le: "subseq ys xs \<Longrightarrow> length ys \<le> length xs"
  by (rule list_emb_length)

lemma allPossibleMelds_set:
  "set (allPossibleMelds g k) = {m. subseq m g \<and> length m = k \<and> (isSet m \<or> isRun m)}"
proof (cases "length g < k")
  case True
  then have "\<not> (subseq m g \<and> length m = k)" for m
    using subseq_length_le [of m g] by auto
  with True show ?thesis by (auto simp: allPossibleMelds_def)
next
  case False
  then show ?thesis by (auto simp: allPossibleMelds_def getCombinations_set)
qed

lemma areDisjoint_iff:
  "areDisjoint a b \<longleftrightarrow> original ` set a \<inter> original ` set b = {}"
proof -
  have "areDisjoint a b \<longleftrightarrow> (\<forall>c\<in>set b. original c \<notin> original ` set a)"
    by (simp add: areDisjoint_def list_ex_iff)
  also have "\<dots> \<longleftrightarrow> original ` set a \<inter> original ` set b = {}"
  proof
    assume h: "\<forall>c\<in>set b. original c \<notin> original ` set a"
    show "original ` set a \<inter> original ` set b = {}"
    proof (rule ccontr)
      assume "original ` set a \<inter> original ` set b \<noteq> {}"
      then obtain z where "z \<in> original ` set a" "z \<in> original ` set b" by blast
      then obtain c where c: "c \<in> set b" and z: "z = original c" by blast
      from h c have "original c \<notin> original ` set a" by (rule bspec)
      with z \<open>z \<in> original ` set a\<close> show False by simp
    qed
  next
    assume h: "original ` set a \<inter> original ` set b = {}"
    show "\<forall>c\<in>set b. original c \<notin> original ` set a"
    proof
      fix c assume "c \<in> set b"
      then have "original c \<in> original ` set b" by (rule imageI)
      with h show "original c \<notin> original ` set a" by (meson disjoint_iff)
    qed
  qed
  finally show ?thesis .
qed

lemma pairLoop_iff:
  "pairLoop cs \<longleftrightarrow> (\<exists>a b. [a, b] \<in> set cs \<and> areDisjoint a b)"
  by (induction cs rule: pairLoop.induct) auto

lemma subseq_set_mono: "subseq xs ys \<Longrightarrow> set xs \<subseteq> set ys"
  by (induct rule: list_emb.induct) auto

lemma subseq_pair_mem: "subseq [a, b] ms \<Longrightarrow> a \<in> set ms \<and> b \<in> set ms"
  using subseq_set_mono [of "[a, b]" ms] by simp

lemma mem_subseq_pair:
  "a \<in> set ms \<Longrightarrow> b \<in> set ms \<Longrightarrow> a \<noteq> b \<Longrightarrow> subseq [a, b] ms \<or> subseq [b, a] ms"
proof (induction ms)
  case Nil
  then show ?case by simp
next
  case (Cons m ms)
  show ?case
  proof (cases "m = a")
    case True
    with Cons.prems have "b \<in> set ms" by auto
    then have "subseq [b] ms" by (simp add: subseq_singleton_left)
    with True show ?thesis by simp
  next
    case na: False
    show ?thesis
    proof (cases "m = b")
      case True
      with Cons.prems have "a \<in> set ms" by auto
      then have "subseq [a] ms" by (simp add: subseq_singleton_left)
      with True show ?thesis by simp
    next
      case False
      with na Cons.prems have "a \<in> set ms" "b \<in> set ms" by auto
      from Cons.IH [OF this Cons.prems(3)] na False show ?thesis by auto
    qed
  qed
qed

lemma areDisjoint_sym: "areDisjoint a b = areDisjoint b a"
  by (simp add: areDisjoint_iff Int_commute)

lemma areDisjoint_self: "a \<noteq> [] \<Longrightarrow> \<not> areDisjoint a a"
  by (cases a) (simp_all add: areDisjoint_iff)

lemma pairLoop_combinations:
  assumes "\<forall>m\<in>set ms. m \<noteq> []"
  shows "pairLoop (getCombinations ms 2) \<longleftrightarrow> (\<exists>a\<in>set ms. \<exists>b\<in>set ms. areDisjoint a b)"
proof
  assume "pairLoop (getCombinations ms 2)"
  then obtain a b where "subseq [a, b] ms" "areDisjoint a b"
    by (auto simp: pairLoop_iff getCombinations_set)
  then show "\<exists>a\<in>set ms. \<exists>b\<in>set ms. areDisjoint a b"
    using subseq_pair_mem [of a b ms] by blast
next
  assume "\<exists>a\<in>set ms. \<exists>b\<in>set ms. areDisjoint a b"
  then obtain a b where a: "a \<in> set ms" and b: "b \<in> set ms" and d: "areDisjoint a b" by blast
  from a assms have "a \<noteq> []" by blast
  with d have "a \<noteq> b" using areDisjoint_self by blast
  from mem_subseq_pair [OF a b this] show "pairLoop (getCombinations ms 2)"
  proof
    assume "subseq [a, b] ms"
    with d show ?thesis by (auto simp: pairLoop_iff getCombinations_set)
  next
    assume "subseq [b, a] ms"
    moreover from d have "areDisjoint b a" by (simp add: areDisjoint_sym)
    ultimately show ?thesis by (auto simp: pairLoop_iff getCombinations_set)
  qed
qed

lemma pairLoop_short: "length ms < 2 \<Longrightarrow> \<not> pairLoop (getCombinations ms 2)"
proof
  assume "length ms < 2" "pairLoop (getCombinations ms 2)"
  then obtain a b where "subseq [a, b] ms"
    by (auto simp: pairLoop_iff getCombinations_set)
  then have "length [a, b] \<le> length ms" by (rule list_emb_length)
  with \<open>length ms < 2\<close> show False by simp
qed

lemma meld4Loop_iff:
  "meld4Loop hand ms \<longleftrightarrow>
     (\<exists>m4\<in>set ms. length (remainingCardsAfterMeld4 hand m4) = 9 \<and>
        twoDisjointMelds (remainingCardsAfterMeld4 hand m4))"
proof (induction ms)
  case Nil
  then show ?case by simp
next
  case (Cons m4 ms)
  let ?rest = "remainingCardsAfterMeld4 hand m4"
  let ?m3 = "allPossibleMelds ?rest 3"
  have ne: "\<forall>m\<in>set ?m3. m \<noteq> []" by (auto simp: allPossibleMelds_set)
  have step: "meld4Loop hand (m4 # ms) \<longleftrightarrow>
      (length ?rest = 9 \<and> twoDisjointMelds ?rest) \<or> meld4Loop hand ms"
  proof (cases "length ?rest = 9")
    case False
    then show ?thesis by (simp add: MIN_CARDS_PER_PLAYER_def Let_def)
  next
    case True
    show ?thesis
    proof (cases "length ?m3 < 2")
      case short: True
      then have "\<not> pairLoop (getCombinations ?m3 2)" by (rule pairLoop_short)
      then have "\<not> twoDisjointMelds ?rest"
        by (simp add: twoDisjointMelds_def pairLoop_combinations [OF ne])
      with True short show ?thesis by (simp add: MIN_CARDS_PER_PLAYER_def Let_def)
    next
      case False
      with True show ?thesis
        by (simp add: MIN_CARDS_PER_PLAYER_def Let_def twoDisjointMelds_def
            pairLoop_combinations [OF ne])
    qed
  qed
  show ?case unfolding step Cons.IH by auto
qed

lemma original_parseCard [simp]: "original (parseCard t) = t"
  by (simp add: parseCard_def Let_def)

lemma map_original_parse [simp]: "map original (map parseCard ts) = ts"
  by (induction ts) simp_all

lemma subseq_map_parse:
  "subseq m (map parseCard hand) \<longleftrightarrow> (\<exists>ts. subseq ts hand \<and> m = map parseCard ts)"
proof
  assume sub: "subseq m (map parseCard hand)"
  then have "subseq (map original m) (map original (map parseCard hand))" by (rule subseq_map)
  then have s1: "subseq (map original m) hand" by (simp only: map_original_parse)
  from sub have "set m \<subseteq> parseCard ` set hand" using subseq_set_mono by fastforce
  then have "\<forall>c\<in>set m. parseCard (original c) = c" by auto
  then have "map parseCard (map original m) = m" by (induction m) simp_all
  with s1 show "\<exists>ts. subseq ts hand \<and> m = map parseCard ts" by metis
next
  assume "\<exists>ts. subseq ts hand \<and> m = map parseCard ts"
  then show "subseq m (map parseCard hand)" by (auto intro: subseq_map)
qed

lemma remaining_parse:
  "remainingCardsAfterMeld4 (map parseCard hand) (map parseCard ts) =
   map parseCard (filter (\<lambda>t. t \<notin> set ts) hand)"
  by (simp add: remainingCardsAfterMeld4_def Let_def filter_map comp_def)

lemma areDisjoint_parse:
  "areDisjoint (map parseCard a) (map parseCard b) \<longleftrightarrow> set a \<inter> set b = {}"
proof -
  have "original ` set (map parseCard xs) = set xs" for xs
    by (simp add: image_image)
  then show ?thesis by (simp add: areDisjoint_iff del: set_map)
qed

lemma twoDisjointMelds_parse:
  "twoDisjointMelds (map parseCard rest) \<longleftrightarrow>
     (\<exists>a\<in>set (subseqs rest). \<exists>b\<in>set (subseqs rest).
        length a = 3 \<and> length b = 3 \<and> meld a \<and> meld b \<and> set a \<inter> set b = {})"
  (is "?L \<longleftrightarrow> ?R")
proof
  assume ?L
  then obtain a b where a: "a \<in> set (allPossibleMelds (map parseCard rest) 3)"
    and b: "b \<in> set (allPossibleMelds (map parseCard rest) 3)" and d: "areDisjoint a b"
    unfolding twoDisjointMelds_def by blast
  from a obtain ta where ta: "subseq ta rest" "a = map parseCard ta" "length a = 3" "isSet a \<or> isRun a"
    by (auto simp: allPossibleMelds_set subseq_map_parse)
  from b obtain tb where tb: "subseq tb rest" "b = map parseCard tb" "length b = 3" "isSet b \<or> isRun b"
    by (auto simp: allPossibleMelds_set subseq_map_parse)
  from d ta tb have d': "set ta \<inter> set tb = {}" by (simp add: areDisjoint_parse)
  from ta have 1: "ta \<in> set (subseqs rest)" "length ta = 3" "meld ta" by (auto simp: meld_def)
  from tb have 2: "tb \<in> set (subseqs rest)" "length tb = 3" "meld tb" by (auto simp: meld_def)
  from 1 2 d' show ?R by blast
next
  assume ?R
  then obtain ta tb where ta: "subseq ta rest" "length ta = 3" "meld ta"
    and tb: "subseq tb rest" "length tb = 3" "meld tb" and d: "set ta \<inter> set tb = {}"
    by auto
  from ta have "map parseCard ta \<in> set (allPossibleMelds (map parseCard rest) 3)"
    by (auto simp: allPossibleMelds_set subseq_map_parse meld_def)
  moreover from tb have "map parseCard tb \<in> set (allPossibleMelds (map parseCard rest) 3)"
    by (auto simp: allPossibleMelds_set subseq_map_parse meld_def)
  moreover from d have "areDisjoint (map parseCard ta) (map parseCard tb)"
    by (simp add: areDisjoint_parse)
  ultimately show ?L unfolding twoDisjointMelds_def by blast
qed

lemma checkWinningCondition_tokenWin:
  "checkWinningCondition hand \<longleftrightarrow> length hand = 13 \<and> tokenWin hand"
proof (cases "length hand = 13")
  case False
  then show ?thesis by (simp add: checkWinningCondition_def MIN_CARDS_PER_PLAYER_def)
next
  case True
  let ?H = "map parseCard hand"
  have "checkWinningCondition hand \<longleftrightarrow> meld4Loop ?H (allPossibleMelds ?H 4)"
    using True by (simp add: checkWinningCondition_def MIN_CARDS_PER_PLAYER_def Let_def)
  also have "\<dots> \<longleftrightarrow> (\<exists>m4\<in>set (allPossibleMelds ?H 4).
       length (remainingCardsAfterMeld4 ?H m4) = 9 \<and>
       twoDisjointMelds (remainingCardsAfterMeld4 ?H m4))"
    by (rule meld4Loop_iff)
  also have "\<dots> \<longleftrightarrow> tokenWin hand" (is "?L \<longleftrightarrow> _")
  proof
    assume ?L
    then obtain m4 where m4: "m4 \<in> set (allPossibleMelds ?H 4)"
      and r: "length (remainingCardsAfterMeld4 ?H m4) = 9"
      and tw: "twoDisjointMelds (remainingCardsAfterMeld4 ?H m4)" by blast
    from m4 obtain ts where ts: "subseq ts hand" "m4 = map parseCard ts" "length ts = 4" "meld ts"
      by (auto simp: allPossibleMelds_set subseq_map_parse meld_def)
    from r tw ts(2) have "length (filter (\<lambda>t. t \<notin> set ts) hand) = 9"
      and "twoDisjointMelds (map parseCard (filter (\<lambda>t. t \<notin> set ts) hand))"
      by (simp_all add: remaining_parse)
    with ts show "tokenWin hand"
      unfolding tokenWin_def Let_def twoDisjointMelds_parse [symmetric] by auto
  next
    assume "tokenWin hand"
    then obtain ts where ts: "subseq ts hand" "length ts = 4" "meld ts"
      and r: "length (filter (\<lambda>t. t \<notin> set ts) hand) = 9"
      and tw: "twoDisjointMelds (map parseCard (filter (\<lambda>t. t \<notin> set ts) hand))"
      unfolding tokenWin_def Let_def twoDisjointMelds_parse [symmetric] by auto
    from ts have "map parseCard ts \<in> set (allPossibleMelds ?H 4)"
      by (auto simp: allPossibleMelds_set subseq_map_parse meld_def)
    moreover from r tw have "length (remainingCardsAfterMeld4 ?H (map parseCard ts)) = 9"
      and "twoDisjointMelds (remainingCardsAfterMeld4 ?H (map parseCard ts))"
      by (simp_all add: remaining_parse)
    ultimately show ?L by blast
  qed
  finally show ?thesis using True by simp
qed

lemma nths_restrict: "nths xs A = nths xs (A \<inter> {..<length xs})"
proof -
  have "filter (\<lambda>p. snd p \<in> A) (zip xs [0..<length xs]) =
        filter (\<lambda>p. snd p \<in> A \<inter> {..<length xs}) (zip xs [0..<length xs])"
    by (rule filter_cong) (auto dest: set_zip_rightD)
  then show ?thesis by (simp add: nths_def)
qed

lemma subseq_index_set:
  assumes "subseq ys xs"
  obtains I where "I \<subseteq> {..<length xs}" "ys = nths xs I" "card I = length ys"
proof -
  from assms obtain N where N: "ys = nths xs N" by (auto simp: subseq_conv_nths)
  let ?I = "N \<inter> {..<length xs}"
  have "ys = nths xs ?I" using N nths_restrict [of xs N] by simp
  moreover have "card ?I = length ys"
  proof -
    have "{i. i < length xs \<and> i \<in> N} = ?I" by auto
    then show ?thesis using N by (simp add: length_nths)
  qed
  ultimately show ?thesis using that [of ?I] by blast
qed

lemma length_nths_subset: "I \<subseteq> {..<length xs} \<Longrightarrow> length (nths xs I) = card I"
proof -
  assume "I \<subseteq> {..<length xs}"
  then have "{i. i < length xs \<and> i \<in> I} = I" by auto
  then show ?thesis by (simp add: length_nths)
qed

lemma length_nths_compl:
  assumes "I \<subseteq> {..<length xs}"
  shows "length (nths xs (- I)) = length xs - card I"
proof -
  have "{i. i < length xs \<and> i \<in> - I} = {..<length xs} - I" by auto
  moreover have "card ({..<length xs} - I) = length xs - card I"
    using assms by (simp add: card_Diff_subset finite_subset)
  ultimately show ?thesis by (simp add: length_nths)
qed

text \<open>Removing by token removes exactly the chosen cards when nine cards remain.\<close>

lemma filter_tokens_eq_compl:
  assumes I: "I \<subseteq> {..<length xs}"
    and len: "length (filter (\<lambda>t. t \<notin> set (nths xs I)) xs) = length xs - card I"
  shows "filter (\<lambda>t. t \<notin> set (nths xs I)) xs = nths xs (- I)"
proof -
  let ?F = "{i. i < length xs \<and> xs ! i \<notin> set (nths xs I)}"
  let ?C = "{..<length xs} - I"
  have sub: "?F \<subseteq> ?C" by (auto simp: set_nths)
  have fin: "finite ?C" by simp
  have "card ?F = length xs - card I"
    using len by (simp add: filter_eq_nths [of _ xs] length_nths)
  moreover have "card ?C = length xs - card I"
    using I by (simp add: card_Diff_subset finite_subset)
  ultimately have "?F = ?C" using sub fin by (simp add: card_subset_eq)
  moreover have "nths xs (- I) = nths xs ?C"
  proof -
    have "- I \<inter> {..<length xs} = ?C" by auto
    then show ?thesis using nths_restrict [of xs "- I"] by simp
  qed
  ultimately show ?thesis by (simp add: filter_eq_nths [of _ xs])
qed

lemma filter_tokens_distinct:
  assumes I: "I \<subseteq> {..<length xs}" and d: "distinct xs"
  shows "filter (\<lambda>t. t \<notin> set (nths xs I)) xs = nths xs (- I)"
proof -
  let ?F = "{i. i < length xs \<and> xs ! i \<notin> set (nths xs I)}"
  let ?C = "{..<length xs} - I"
  have "?F = ?C"
  proof (intro set_eqI iffI)
    fix i assume "i \<in> ?F"
    then show "i \<in> ?C" by (auto simp: set_nths)
  next
    fix i assume i: "i \<in> ?C"
    have "xs ! i \<notin> set (nths xs I)"
    proof
      assume "xs ! i \<in> set (nths xs I)"
      then obtain j where "j < length xs" "j \<in> I" "xs ! i = xs ! j" by (auto simp: set_nths)
      with d i have "i = j" by (simp add: nth_eq_iff_index_eq)
      with \<open>j \<in> I\<close> i show False by simp
    qed
    with i show "i \<in> ?F" by simp
  qed
  moreover have "nths xs (- I) = nths xs ?C"
  proof -
    have "- I \<inter> {..<length xs} = ?C" by auto
    then show ?thesis using nths_restrict [of xs "- I"] by simp
  qed
  ultimately show ?thesis by (simp add: filter_eq_nths [of _ xs])
qed

lemma disjoint_tokens_indices:
  assumes "J \<subseteq> {..<length xs}" "K \<subseteq> {..<length xs}"
    and "set (nths xs J) \<inter> set (nths xs K) = {}"
  shows "J \<inter> K = {}"
proof (rule ccontr)
  assume "J \<inter> K \<noteq> {}"
  then obtain j where "j \<in> J" "j \<in> K" by blast
  with assms(1) have "j < length xs" by auto
  with \<open>j \<in> J\<close> \<open>j \<in> K\<close> have "xs ! j \<in> set (nths xs J)" "xs ! j \<in> set (nths xs K)"
    by (auto simp: set_nths)
  with assms(3) show False by blast
qed

lemma disjoint_indices_tokens:
  assumes "distinct xs" "J \<inter> K = {}"
  shows "set (nths xs J) \<inter> set (nths xs K) = {}"
proof (rule ccontr)
  assume "set (nths xs J) \<inter> set (nths xs K) \<noteq> {}"
  then obtain z where "z \<in> set (nths xs J)" "z \<in> set (nths xs K)" by blast
  then obtain j k where "j < length xs" "j \<in> J" "z = xs ! j" "k < length xs" "k \<in> K" "z = xs ! k"
    by (auto simp: set_nths)
  with assms(1) have "j = k" by (simp add: nth_eq_iff_index_eq)
  with \<open>j \<in> J\<close> \<open>k \<in> K\<close> assms(2) show False by blast
qed

lemma tokenWinE:
  assumes "tokenWin hand"
  obtains m4 a b where "subseq m4 hand" "length m4 = 4" "meld m4"
    "length (filter (\<lambda>t. t \<notin> set m4) hand) = 9"
    "subseq a (filter (\<lambda>t. t \<notin> set m4) hand)" "length a = 3" "meld a"
    "subseq b (filter (\<lambda>t. t \<notin> set m4) hand)" "length b = 3" "meld b"
    "set a \<inter> set b = {}"
  using assms unfolding tokenWin_def Let_def Bex_def in_set_subseqs
  by (elim exE conjE) (rule that, assumption+)

lemma tokenWin_physicalWin:
  assumes len: "length hand = 13" and tw: "tokenWin hand"
  shows "physicalWin hand"
proof -
  from tw obtain m4 a b where m4: "subseq m4 hand" "length m4 = 4" "meld m4"
    and r: "length (filter (\<lambda>t. t \<notin> set m4) hand) = 9"
    and a0: "subseq a (filter (\<lambda>t. t \<notin> set m4) hand)" "length a = 3" "meld a"
    and b0: "subseq b (filter (\<lambda>t. t \<notin> set m4) hand)" "length b = 3" "meld b"
    and d: "set a \<inter> set b = {}"
    by (rule tokenWinE)
  from m4(1) obtain I where I: "I \<subseteq> {..<length hand}" "m4 = nths hand I" "card I = length m4"
    by (rule subseq_index_set)
  let ?rest = "nths hand (- I)"
  have rest: "filter (\<lambda>t. t \<notin> set m4) hand = ?rest"
    using filter_tokens_eq_compl [OF I(1)] r len I(2,3) m4(2) by simp
  from a0 b0 have a: "subseq a ?rest" "length a = 3" "meld a"
    and b: "subseq b ?rest" "length b = 3" "meld b"
    unfolding rest by simp_all
  from a(1) obtain J where J: "J \<subseteq> {..<length ?rest}" "a = nths ?rest J" "card J = length a"
    by (rule subseq_index_set)
  from b(1) obtain K where K: "K \<subseteq> {..<length ?rest}" "b = nths ?rest K" "card K = length b"
    by (rule subseq_index_set)
  have JK: "J \<inter> K = {}" using disjoint_tokens_indices [OF J(1) K(1)] d J(2) K(2) by simp
  have "\<exists>J\<in>Pow {..<length ?rest}. \<exists>K\<in>Pow {..<length ?rest}.
          card J = 3 \<and> card K = 3 \<and> J \<inter> K = {} \<and> meld (nths ?rest J) \<and> meld (nths ?rest K)"
  proof (rule bexI [of _ J])
    show "\<exists>K\<in>Pow {..<length ?rest}.
          card J = 3 \<and> card K = 3 \<and> J \<inter> K = {} \<and> meld (nths ?rest J) \<and> meld (nths ?rest K)"
    proof (rule bexI [of _ K])
      show "card J = 3 \<and> card K = 3 \<and> J \<inter> K = {} \<and> meld (nths ?rest J) \<and> meld (nths ?rest K)"
        using J K a b JK by simp
      show "K \<in> Pow {..<length ?rest}" using K(1) by simp
    qed
    show "J \<in> Pow {..<length ?rest}" using J(1) by simp
  qed
  then have "card I = 4 \<and> meld (nths hand I) \<and>
      (\<exists>J\<in>Pow {..<length ?rest}. \<exists>K\<in>Pow {..<length ?rest}.
          card J = 3 \<and> card K = 3 \<and> J \<inter> K = {} \<and> meld (nths ?rest J) \<and> meld (nths ?rest K))"
    using I m4 by simp
  moreover have "I \<in> Pow {..<length hand}" using I(1) by simp
  ultimately show ?thesis
    unfolding physicalWin_def Let_def by (rule bexI [of _ I])
qed

lemma physicalWin_tokenWin:
  assumes len: "length hand = 13" and d: "distinct hand" and pw: "physicalWin hand"
  shows "tokenWin hand"
proof -
  from pw obtain I where I: "I \<subseteq> {..<length hand}" "card I = 4" "meld (nths hand I)"
    and ex: "\<exists>J\<in>Pow {..<length (nths hand (- I))}. \<exists>K\<in>Pow {..<length (nths hand (- I))}.
              card J = 3 \<and> card K = 3 \<and> J \<inter> K = {} \<and>
              meld (nths (nths hand (- I)) J) \<and> meld (nths (nths hand (- I)) K)"
    unfolding physicalWin_def Let_def Bex_def Pow_iff by (elim exE conjE) blast
  from ex obtain J K
    where J: "J \<subseteq> {..<length (nths hand (- I))}" "card J = 3" "meld (nths (nths hand (- I)) J)"
    and K: "K \<subseteq> {..<length (nths hand (- I))}" "card K = 3" "meld (nths (nths hand (- I)) K)"
    and JK: "J \<inter> K = {}"
    unfolding Bex_def Pow_iff by (elim exE conjE) blast
  let ?m4 = "nths hand I"
  let ?rest = "nths hand (- I)"
  have rest: "filter (\<lambda>t. t \<notin> set ?m4) hand = ?rest"
    by (rule filter_tokens_distinct [OF I(1) d])
  have 1: "?m4 \<in> set (subseqs hand)" "length ?m4 = 4"
    using I by (auto simp: subseq_conv_nths length_nths_subset)
  have 2: "length ?rest = 9" using length_nths_compl [OF I(1)] I(2) len by simp
  have 3: "nths ?rest J \<in> set (subseqs ?rest)" "length (nths ?rest J) = 3"
    using J by (auto simp: subseq_conv_nths length_nths_subset)
  have 4: "nths ?rest K \<in> set (subseqs ?rest)" "length (nths ?rest K) = 3"
    using K by (auto simp: subseq_conv_nths length_nths_subset)
  have "distinct ?rest" using d by simp
  then have 5: "set (nths ?rest J) \<inter> set (nths ?rest K) = {}"
    using JK by (rule disjoint_indices_tokens)
  have "\<exists>a\<in>set (subseqs ?rest). \<exists>b\<in>set (subseqs ?rest).
          length a = 3 \<and> length b = 3 \<and> meld a \<and> meld b \<and> set a \<inter> set b = {}"
  proof (rule bexI [of _ "nths ?rest J"])
    show "\<exists>b\<in>set (subseqs ?rest).
          length (nths ?rest J) = 3 \<and> length b = 3 \<and> meld (nths ?rest J) \<and> meld b \<and>
          set (nths ?rest J) \<inter> set b = {}"
      by (rule bexI [of _ "nths ?rest K"]) (use 3 4 5 J(3) K(3) in simp_all)
  qed (use 3 in simp)
  then have R: "length (filter (\<lambda>t. t \<notin> set ?m4) hand) = 9 \<and>
        (\<exists>a\<in>set (subseqs (filter (\<lambda>t. t \<notin> set ?m4) hand)).
         \<exists>b\<in>set (subseqs (filter (\<lambda>t. t \<notin> set ?m4) hand)).
            length a = 3 \<and> length b = 3 \<and> meld a \<and> meld b \<and> set a \<inter> set b = {})"
    unfolding rest using 2 by simp
  show ?thesis
    unfolding tokenWin_def Let_def
  proof (rule bexI [of _ ?m4])
    show "?m4 \<in> set (subseqs hand)" by (rule 1(1))
    from 1(2) I(3) R
    show "length ?m4 = 4 \<and> meld ?m4 \<and>
          length (filter (\<lambda>t. t \<notin> set ?m4) hand) = 9 \<and>
          (\<exists>a\<in>set (subseqs (filter (\<lambda>t. t \<notin> set ?m4) hand)).
           \<exists>b\<in>set (subseqs (filter (\<lambda>t. t \<notin> set ?m4) hand)).
              length a = 3 \<and> length b = 3 \<and> meld a \<and> meld b \<and> set a \<inter> set b = {})"
      by (intro conjI) (erule conjunct1 conjunct2 | assumption)+
  qed
qed

lemma filter_backtrack:
  assumes "\<And>c ys. \<not> Q c \<Longrightarrow> \<not> P (c @ ys)"
  shows "length cur \<le> k \<Longrightarrow> filter P (backtrack k xs cur) = meldSearch Q P k xs cur"
proof (induction xs arbitrary: cur)
  case Nil
  then show ?case by simp
next
  case (Cons x xs)
  show ?case
  proof (cases "length cur = k")
    case True
    then show ?thesis by simp
  next
    case False
    with Cons.prems have l1: "length (cur @ [x]) \<le> k" by simp
    have pruned: "filter P (backtrack k xs (cur @ [x])) = []" if "\<not> Q (cur @ [x])"
      using assms [OF that] backtrack_set [OF l1, of xs] by (auto simp: filter_empty_conv)
    show ?thesis
      using False Cons.IH [OF l1] Cons.IH [OF Cons.prems] pruned by simp
  qed
qed

lemma oneSuitOrRank_meld: "\<not> oneSuitOrRank c \<Longrightarrow> \<not> (isSet (c @ ys) \<or> isRun (c @ ys))"
  by (cases c) (auto simp: oneSuitOrRank_def isSet_def isRun_def Let_def)

lemma allPossibleMelds_search:
  "allPossibleMelds g k = (if length g < k then [] else meldSearch oneSuitOrRank (\<lambda>m. isSet m \<or> isRun m) k g [])"
  unfolding allPossibleMelds_def getCombinations_def
  using filter_backtrack [of oneSuitOrRank "\<lambda>m. isSet m \<or> isRun m" "[]" k g] oneSuitOrRank_meld
  by simp

section \<open>Example hands and the claims on the win evaluator\<close>

lemmas eval_defs =
  MIN_CARDS_PER_PLAYER_def oneSuitOrRank_def isSet_def isRun_def remainingCardsAfterMeld4_def
  sortBy_def byValue_def notNext_def RANK_ORDER_def

lemma parse_dupHand:
  "map parseCard dupHand =
     [\<lparr>original = r4 @ SPADE, rank = r4, suit = SPADE, val = Some 4, color = Black\<rparr>,
      \<lparr>original = r5 @ SPADE, rank = r5, suit = SPADE, val = Some 5, color = Black\<rparr>,
      \<lparr>original = r6 @ SPADE, rank = r6, suit = SPADE, val = Some 6, color = Black\<rparr>,
      \<lparr>original = r7 @ SPADE, rank = r7, suit = SPADE, val = Some 7, color = Black\<rparr>,
      \<lparr>original = r7 @ SPADE, rank = r7, suit = SPADE, val = Some 7, color = Black\<rparr>,
      \<lparr>original = rA @ HEART, rank = rA, suit = HEART, val = Some 1, color = Red\<rparr>,
      \<lparr>original = r2 @ HEART, rank = r2, suit = HEART, val = Some 2, color = Red\<rparr>,
      \<lparr>original = r3 @ HEART, rank = r3, suit = HEART, val = Some 3, color = Red\<rparr>,
      \<lparr>original = r5 @ DIAMOND, rank = r5, suit = DIAMOND, val = Some 5, color = Red\<rparr>,
      \<lparr>original = r6 @ DIAMOND, rank = r6, suit = DIAMOND, val = Some 6, color = Red\<rparr>,
      \<lparr>original = r7 @ DIAMOND, rank = r7, suit = DIAMOND, val = Some 7, color = Red\<rparr>,
      \<lparr>original = r9 @ CLUB, rank = r9, suit = CLUB, val = Some 9, color = Black\<rparr>,
      \<lparr>original = rJ @ CLUB, rank = rJ, suit = CLUB, val = Some 11, color = Black\<rparr>]"
  by (simp add: dupHand_def parse_defs token_defs)

lemma dupHand_not_winning: "\<not> checkWinningCondition dupHand"
  unfolding checkWinningCondition_def Let_def allPossibleMelds_search
  by (simp only: parse_dupHand) (simp add: dupHand_def eval_defs parse_defs token_defs)

lemma meld_spades: "meld [r4 @ SPADE, r5 @ SPADE, r6 @ SPADE, r7 @ SPADE]"
  by (simp add: meld_def eval_defs parse_defs token_defs)

lemma meld_hearts: "meld [rA @ HEART, r2 @ HEART, r3 @ HEART]"
  by (simp add: meld_def eval_defs parse_defs token_defs)

lemma meld_diamonds: "meld [r5 @ DIAMOND, r6 @ DIAMOND, r7 @ DIAMOND]"
  by (simp add: meld_def eval_defs parse_defs token_defs)

lemma no_meld_leftover: "\<not> meld [r9 @ SPADE, r9 @ CLUB, rJ @ CLUB]"
  by (simp add: meld_def eval_defs parse_defs token_defs)

lemma nths_interval: "nths xs {a ..< a + n} = take n (drop a xs)"
proof -
  have "(+) a ` {..<n} = {a ..< a + n}"
  proof (intro set_eqI iffI)
    fix x assume "x \<in> (+) a ` {..<n}"
    then show "x \<in> {a ..< a + n}" by auto
  next
    fix x assume "x \<in> {a ..< a + n}"
    then have "x = a + (x - a)" "x - a \<in> {..<n}" by auto
    then show "x \<in> (+) a ` {..<n}" by (rule image_eqI)
  qed
  then show ?thesis using nths_drop [of a xs "{..<n}"] by simp
qed

lemma nths_from: "nths xs (- {..<n}) = drop n xs"
proof -
  have "- {..<n} = {i. n \<le> i}" by auto
  then show ?thesis by (simp add: drop_eq_nths)
qed

lemma physicalWin_dupHand: "physicalWin dupHand"
proof -
  let ?rest = "nths dupHand (- {..<4})"
  have rest: "?rest = [r7 @ SPADE, rA @ HEART, r2 @ HEART, r3 @ HEART,
      r5 @ DIAMOND, r6 @ DIAMOND, r7 @ DIAMOND, r9 @ CLUB, rJ @ CLUB]"
    unfolding nths_from dupHand_def by simp
  have m4: "nths dupHand {..<4} = [r4 @ SPADE, r5 @ SPADE, r6 @ SPADE, r7 @ SPADE]"
    by (simp add: dupHand_def)
  have a: "nths ?rest {1 ..< 1 + 3} = [rA @ HEART, r2 @ HEART, r3 @ HEART]"
    unfolding rest nths_interval by simp
  have b: "nths ?rest {4 ..< 4 + 3} = [r5 @ DIAMOND, r6 @ DIAMOND, r7 @ DIAMOND]"
    unfolding rest nths_interval by simp
  have inner: "\<exists>J\<in>Pow {..<length ?rest}. \<exists>K\<in>Pow {..<length ?rest}.
      card J = 3 \<and> card K = 3 \<and> J \<inter> K = {} \<and> meld (nths ?rest J) \<and> meld (nths ?rest K)"
  proof (rule bexI [of _ "{1 ..< 1 + 3}"])
    show "\<exists>K\<in>Pow {..<length ?rest}.
      card {1::nat ..< 1 + 3} = 3 \<and> card K = 3 \<and> {1 ..< 1 + 3} \<inter> K = {} \<and>
      meld (nths ?rest {1 ..< 1 + 3}) \<and> meld (nths ?rest K)"
    proof (rule bexI [of _ "{4 ..< 4 + 3}"])
      show "card {1::nat ..< 1 + 3} = 3 \<and> card {4::nat ..< 4 + 3} = 3 \<and>
        {1::nat ..< 1 + 3} \<inter> {4 ..< 4 + 3} = {} \<and>
        meld (nths ?rest {1 ..< 1 + 3}) \<and> meld (nths ?rest {4 ..< 4 + 3})"
        unfolding a b using meld_hearts meld_diamonds by simp
      show "{4 ..< 4 + 3} \<in> Pow {..<length ?rest}" unfolding rest by auto
    qed
    show "{1 ..< 1 + 3} \<in> Pow {..<length ?rest}" unfolding rest by auto
  qed
  have "card {..<4::nat} = 4 \<and> meld (nths dupHand {..<4}) \<and>
     (\<exists>J\<in>Pow {..<length ?rest}. \<exists>K\<in>Pow {..<length ?rest}.
      card J = 3 \<and> card K = 3 \<and> J \<inter> K = {} \<and> meld (nths ?rest J) \<and> meld (nths ?rest K))"
    using inner meld_spades unfolding m4 by simp
  moreover have "{..<4} \<in> Pow {..<length dupHand}" by (auto simp: dupHand_def)
  ultimately show ?thesis unfolding physicalWin_def Let_def by (rule bexI [of _ "{..<4}"])
qed

lemma tokenWinI:
  assumes "subseq m4 hand" "length m4 = 4" "meld m4"
    and "filter (\<lambda>t. t \<notin> set m4) hand = rest" "length rest = 9"
    and "subseq a rest" "length a = 3" "meld a"
    and "subseq b rest" "length b = 3" "meld b"
    and "set a \<inter> set b = {}"
  shows "tokenWin hand"
  unfolding tokenWin_def Let_def Bex_def in_set_subseqs
  using assms by blast

lemma tokenWin_winHand: "tokenWin winHand"
proof (rule tokenWinI)
  show "subseq [r4 @ SPADE, r5 @ SPADE, r6 @ SPADE, r7 @ SPADE] winHand"
    by (simp add: winHand_def token_defs)
  show "meld [r4 @ SPADE, r5 @ SPADE, r6 @ SPADE, r7 @ SPADE]" by (rule meld_spades)
  show "filter (\<lambda>t. t \<notin> set [r4 @ SPADE, r5 @ SPADE, r6 @ SPADE, r7 @ SPADE]) winHand =
        [r9 @ SPADE, rA @ HEART, r2 @ HEART, r3 @ HEART,
         r5 @ DIAMOND, r6 @ DIAMOND, r7 @ DIAMOND, r9 @ CLUB, rJ @ CLUB]"
    by (simp add: winHand_def token_defs)
  show "subseq [rA @ HEART, r2 @ HEART, r3 @ HEART]
        [r9 @ SPADE, rA @ HEART, r2 @ HEART, r3 @ HEART,
         r5 @ DIAMOND, r6 @ DIAMOND, r7 @ DIAMOND, r9 @ CLUB, rJ @ CLUB]"
    by (simp add: token_defs)
  show "meld [rA @ HEART, r2 @ HEART, r3 @ HEART]" by (rule meld_hearts)
  show "subseq [r5 @ DIAMOND, r6 @ DIAMOND, r7 @ DIAMOND]
        [r9 @ SPADE, rA @ HEART, r2 @ HEART, r3 @ HEART,
         r5 @ DIAMOND, r6 @ DIAMOND, r7 @ DIAMOND, r9 @ CLUB, rJ @ CLUB]"
    by (simp add: token_defs)
  show "meld [r5 @ DIAMOND, r6 @ DIAMOND, r7 @ DIAMOND]" by (rule meld_diamonds)
  show "set [rA @ HEART, r2 @ HEART, r3 @ HEART] \<inter>
        set [r5 @ DIAMOND, r6 @ DIAMOND, r7 @ DIAMOND] = {}"
    by (simp add: token_defs)
qed simp_all

lemma distinct_winHand: "distinct winHand"
  by (simp add: winHand_def token_defs)

lemma winHand_winning: "checkWinningCondition winHand"
  using tokenWin_winHand by (simp add: checkWinningCondition_tokenWin winHand_def)

text \<open>
  Where the evaluator agrees with a decomposition by cards. If \<open>checkWinningCondition\<close>
  returns true, the hand has 13 cards and a decomposition by positions exists: four cards
  forming a meld and, among the nine other cards, two disjoint groups of three cards each
  forming a meld, with nothing asked of the last three cards. For a hand of pairwise
  distinct tokens the converse holds too. For a hand whose length is not 13 the result is
  false.
\<close>

lemma checkWinningCondition_by_cards:
  "(checkWinningCondition hand \<longrightarrow> length hand = 13 \<and> physicalWin hand) \<and>
   (distinct hand \<longrightarrow>
      (checkWinningCondition hand \<longleftrightarrow> length hand = 13 \<and> physicalWin hand)) \<and>
   (length hand \<noteq> 13 \<longrightarrow> \<not> checkWinningCondition hand)"
  using tokenWin_physicalWin [of hand] physicalWin_tokenWin [of hand]
  by (auto simp: checkWinningCondition_tokenWin)

lemma winHand_by_cards:
  "distinct winHand \<and> length winHand = 13 \<and> checkWinningCondition winHand \<and>
   physicalWin winHand \<and> \<not> meld [r9 @ SPADE, r9 @ CLUB, rJ @ CLUB]"
  using checkWinningCondition_by_cards [of winHand] winHand_winning distinct_winHand
    no_meld_leftover
  by simp

text \<open>
  Claim C1. For every hand of 13 tokens \<open>checkWinningCondition\<close> should return true
  exactly when four cards of the hand form a meld and, among the nine other cards, two
  disjoint groups of three cards form melds. The code departs from this on \<open>dupHand\<close>,
  a hand of 13 cards that the two decks of a four-player game can deal (lemma
  \<open>dupHand_dealable\<close>): the spades 4, 5, 6, 7 form a run, and among the nine other cards
  the hearts A, 2, 3 and the diamonds 5, 6, 7 form two disjoint runs, yet the evaluator
  returns false. It removes the run by token and so removes the second seven of spades
  with it; eight cards are left and the candidate is passed over.
\<close>

theorem checkWinningCondition_dupHand:
  "length dupHand = 13 \<and> physicalWin dupHand \<and> \<not> checkWinningCondition dupHand"
  using physicalWin_dupHand dupHand_not_winning by (simp add: dupHand_def)

lemma remaining_at_most:
  assumes "subseq ts hand"
  shows "length (filter (\<lambda>t. t \<notin> set ts) hand) + length ts \<le> length hand"
proof -
  have "subseq (filter (\<lambda>t. t \<in> set ts) ts) (filter (\<lambda>t. t \<in> set ts) hand)"
    using assms by (rule subseq_filter)
  moreover have "filter (\<lambda>t. t \<in> set ts) ts = ts" by simp
  ultimately have "length ts \<le> length (filter (\<lambda>t. t \<in> set ts) hand)"
    using list_emb_length by fastforce
  moreover have "length (filter (\<lambda>t. t \<in> set ts) hand) +
      length (filter (\<lambda>t. t \<notin> set ts) hand) = length hand"
    using sum_length_filter_compl [of "\<lambda>t. t \<in> set ts" hand] by simp
  ultimately show ?thesis by simp
qed

lemma remaining_distinct:
  assumes "subseq ts hand" "distinct hand"
  shows "length (filter (\<lambda>t. t \<notin> set ts) hand) = length hand - length ts"
proof -
  from assms(1) obtain I where I: "I \<subseteq> {..<length hand}" "ts = nths hand I" "card I = length ts"
    by (rule subseq_index_set)
  have "filter (\<lambda>t. t \<notin> set ts) hand = nths hand (- I)"
    unfolding I(2) by (rule filter_tokens_distinct [OF I(1) assms(2)])
  then show ?thesis using length_nths_compl [OF I(1)] I(3) by simp
qed

lemma candidate_tokens:
  assumes "meld4 \<in> set (allPossibleMelds (map parseCard hand) k)"
  obtains ts where "subseq ts hand" "meld4 = map parseCard ts" "length ts = k" "meld ts"
proof -
  from assms have m: "subseq meld4 (map parseCard hand)" "length meld4 = k"
    "isSet meld4 \<or> isRun meld4"
    by (simp_all add: allPossibleMelds_set)
  from m(1) have "\<exists>ts. subseq ts hand \<and> meld4 = map parseCard ts"
    by (simp only: subseq_map_parse)
  then obtain ts where ts: "subseq ts hand" "meld4 = map parseCard ts" by (elim exE conjE)
  from ts(2) m(2,3) have "length ts = k" "meld ts" by (simp_all add: meld_def)
  with ts show ?thesis by (rule that)
qed

text \<open>
  How many cards step 4 keeps. For every 13-token hand and every candidate 4-meld of step
  3, removing the cards whose token occurs in the meld leaves at most 9 cards, and exactly
  9 when the tokens of the hand are pairwise distinct; a candidate that leaves another
  number is passed over by the loop.
\<close>

lemma remaining_after_meld4:
  assumes "length hand = 13"
    and "meld4 \<in> set (allPossibleMelds (map parseCard hand) 4)"
  shows "length (remainingCardsAfterMeld4 (map parseCard hand) meld4) \<le> 9 \<and>
         (distinct hand \<longrightarrow>
            length (remainingCardsAfterMeld4 (map parseCard hand) meld4) = 9) \<and>
         (length (remainingCardsAfterMeld4 (map parseCard hand) meld4) \<noteq> 9 \<longrightarrow>
            meld4Loop (map parseCard hand) (meld4 # others) =
            meld4Loop (map parseCard hand) others)"
proof -
  from assms(2) obtain ts where ts: "subseq ts hand" "meld4 = map parseCard ts" "length ts = 4"
    by (rule candidate_tokens)
  have rem: "length (remainingCardsAfterMeld4 (map parseCard hand) meld4) =
        length (filter (\<lambda>t. t \<notin> set ts) hand)"
    unfolding ts(2) remaining_parse by simp
  have "length (filter (\<lambda>t. t \<notin> set ts) hand) \<le> 9"
    using remaining_at_most [OF ts(1)] ts(3) assms(1) by simp
  moreover have "length (filter (\<lambda>t. t \<notin> set ts) hand) = 9" if "distinct hand"
    using remaining_distinct [OF ts(1) that] ts(3) assms(1) by simp
  ultimately show ?thesis
    unfolding rem by (simp add: MIN_CARDS_PER_PLAYER_def Let_def rem)
qed

lemma spades_candidate:
  assumes "subseq [r4 @ SPADE, r5 @ SPADE, r6 @ SPADE, r7 @ SPADE] hand"
  shows "map parseCard [r4 @ SPADE, r5 @ SPADE, r6 @ SPADE, r7 @ SPADE]
         \<in> set (allPossibleMelds (map parseCard hand) 4)"
  unfolding allPossibleMelds_set
  using assms meld_spades subseq_map [OF assms, of parseCard] by (simp add: meld_def)

lemma remaining_after_meld4_winHand:
  "length winHand = 13 \<and> distinct winHand \<and>
   map parseCard [r4 @ SPADE, r5 @ SPADE, r6 @ SPADE, r7 @ SPADE]
     \<in> set (allPossibleMelds (map parseCard winHand) 4) \<and>
   length (remainingCardsAfterMeld4 (map parseCard winHand)
     (map parseCard [r4 @ SPADE, r5 @ SPADE, r6 @ SPADE, r7 @ SPADE])) = 9"
proof -
  have len: "length winHand = 13" by (simp add: winHand_def)
  have cand: "map parseCard [r4 @ SPADE, r5 @ SPADE, r6 @ SPADE, r7 @ SPADE]
     \<in> set (allPossibleMelds (map parseCard winHand) 4)"
    by (rule spades_candidate) (simp add: winHand_def token_defs)
  from remaining_after_meld4 [OF len cand] distinct_winHand len cand show ?thesis by blast
qed

text \<open>
  Claim C2. For every 13-token hand, hands with duplicate tokens included, removing a
  candidate 4-meld's cards should leave exactly 9 cards. The code departs from this on
  \<open>dupHand\<close>: the run of the spades 4, 5, 6, 7 is a candidate of step 3, and removing it
  leaves 8 cards, because the filter compares tokens and drops the second seven of spades
  too.
\<close>

theorem remaining_after_meld4_dupHand:
  "length dupHand = 13 \<and>
   map parseCard [r4 @ SPADE, r5 @ SPADE, r6 @ SPADE, r7 @ SPADE]
     \<in> set (allPossibleMelds (map parseCard dupHand) 4) \<and>
   length (remainingCardsAfterMeld4 (map parseCard dupHand)
     (map parseCard [r4 @ SPADE, r5 @ SPADE, r6 @ SPADE, r7 @ SPADE])) = 8"
proof -
  have "map parseCard [r4 @ SPADE, r5 @ SPADE, r6 @ SPADE, r7 @ SPADE]
     \<in> set (allPossibleMelds (map parseCard dupHand) 4)"
    by (rule spades_candidate) (simp add: dupHand_def token_defs)
  moreover have "length (remainingCardsAfterMeld4 (map parseCard dupHand)
     (map parseCard [r4 @ SPADE, r5 @ SPADE, r6 @ SPADE, r7 @ SPADE])) = 8"
    unfolding remaining_parse by (simp add: dupHand_def token_defs)
  ultimately show ?thesis by (simp add: dupHand_def)
qed

lemma remaining_by_tokens:
  "remainingCardsAfterMeld4 cs meld4 =
   filter (\<lambda>c. \<forall>d\<in>set meld4. original c \<noteq> original d) cs"
  unfolding remainingCardsAfterMeld4_def Let_def set_map
  by (rule filter_cong) (auto simp: image_iff)

lemma areDisjoint_by_tokens:
  "areDisjoint m3_one m3_two \<longleftrightarrow>
   (\<forall>c\<in>set m3_one. \<forall>d\<in>set m3_two. original c \<noteq> original d)"
proof -
  have "original ` set m3_one \<inter> original ` set m3_two = {} \<longleftrightarrow>
        (\<forall>c\<in>set m3_one. \<forall>d\<in>set m3_two. original c \<noteq> original d)"
    unfolding disjoint_iff image_iff by metis
  then show ?thesis by (simp only: areDisjoint_iff)
qed

lemma parse_twinHand:
  "map parseCard twinHand =
     [\<lparr>original = r7 @ SPADE, rank = r7, suit = SPADE, val = Some 7, color = Black\<rparr>,
      \<lparr>original = r7 @ SPADE, rank = r7, suit = SPADE, val = Some 7, color = Black\<rparr>,
      \<lparr>original = r7 @ DIAMOND, rank = r7, suit = DIAMOND, val = Some 7, color = Red\<rparr>,
      \<lparr>original = r7 @ HEART, rank = r7, suit = HEART, val = Some 7, color = Red\<rparr>,
      \<lparr>original = rA @ HEART, rank = rA, suit = HEART, val = Some 1, color = Red\<rparr>,
      \<lparr>original = r2 @ HEART, rank = r2, suit = HEART, val = Some 2, color = Red\<rparr>,
      \<lparr>original = r3 @ HEART, rank = r3, suit = HEART, val = Some 3, color = Red\<rparr>,
      \<lparr>original = r4 @ CLUB, rank = r4, suit = CLUB, val = Some 4, color = Black\<rparr>,
      \<lparr>original = r5 @ CLUB, rank = r5, suit = CLUB, val = Some 5, color = Black\<rparr>,
      \<lparr>original = r6 @ CLUB, rank = r6, suit = CLUB, val = Some 6, color = Black\<rparr>,
      \<lparr>original = r9 @ SPADE, rank = r9, suit = SPADE, val = Some 9, color = Black\<rparr>,
      \<lparr>original = rJ @ DIAMOND, rank = rJ, suit = DIAMOND, val = Some 11, color = Red\<rparr>,
      \<lparr>original = rK @ CLUB, rank = rK, suit = CLUB, val = Some 13, color = Black\<rparr>]"
  by (simp add: twinHand_def parse_defs token_defs)

lemma parse_sevens:
  "map parseCard [r7 @ SPADE, r7 @ SPADE, r7 @ DIAMOND, r7 @ HEART] =
     [\<lparr>original = r7 @ SPADE, rank = r7, suit = SPADE, val = Some 7, color = Black\<rparr>,
      \<lparr>original = r7 @ SPADE, rank = r7, suit = SPADE, val = Some 7, color = Black\<rparr>,
      \<lparr>original = r7 @ DIAMOND, rank = r7, suit = DIAMOND, val = Some 7, color = Red\<rparr>,
      \<lparr>original = r7 @ HEART, rank = r7, suit = HEART, val = Some 7, color = Red\<rparr>]"
  by (simp add: parse_defs token_defs)

lemma twinHand_candidates:
  "allPossibleMelds (map parseCard twinHand) 4 =
     [map parseCard [r7 @ SPADE, r7 @ SPADE, r7 @ DIAMOND, r7 @ HEART]]"
  unfolding allPossibleMelds_search parse_twinHand parse_sevens
  by (simp add: eval_defs parse_defs token_defs)

lemma meld_sevens: "meld [r7 @ SPADE, r7 @ SPADE, r7 @ DIAMOND, r7 @ HEART]"
  by (simp add: meld_def eval_defs parse_defs token_defs)

lemma meld_clubs: "meld [r4 @ CLUB, r5 @ CLUB, r6 @ CLUB]"
  by (simp add: meld_def eval_defs parse_defs token_defs)

lemma tokenWin_twinHand: "tokenWin twinHand"
proof (rule tokenWinI)
  show "subseq [r7 @ SPADE, r7 @ SPADE, r7 @ DIAMOND, r7 @ HEART] twinHand"
    by (simp add: twinHand_def token_defs)
  show "meld [r7 @ SPADE, r7 @ SPADE, r7 @ DIAMOND, r7 @ HEART]" by (rule meld_sevens)
  show "filter (\<lambda>t. t \<notin> set [r7 @ SPADE, r7 @ SPADE, r7 @ DIAMOND, r7 @ HEART]) twinHand =
        [rA @ HEART, r2 @ HEART, r3 @ HEART,
         r4 @ CLUB, r5 @ CLUB, r6 @ CLUB, r9 @ SPADE, rJ @ DIAMOND, rK @ CLUB]"
    by (simp add: twinHand_def token_defs)
  show "subseq [rA @ HEART, r2 @ HEART, r3 @ HEART]
        [rA @ HEART, r2 @ HEART, r3 @ HEART,
         r4 @ CLUB, r5 @ CLUB, r6 @ CLUB, r9 @ SPADE, rJ @ DIAMOND, rK @ CLUB]"
    by (simp add: token_defs)
  show "meld [rA @ HEART, r2 @ HEART, r3 @ HEART]" by (rule meld_hearts)
  show "subseq [r4 @ CLUB, r5 @ CLUB, r6 @ CLUB]
        [rA @ HEART, r2 @ HEART, r3 @ HEART,
         r4 @ CLUB, r5 @ CLUB, r6 @ CLUB, r9 @ SPADE, rJ @ DIAMOND, rK @ CLUB]"
    by (simp add: token_defs)
  show "meld [r4 @ CLUB, r5 @ CLUB, r6 @ CLUB]" by (rule meld_clubs)
  show "set [rA @ HEART, r2 @ HEART, r3 @ HEART] \<inter> set [r4 @ CLUB, r5 @ CLUB, r6 @ CLUB] = {}"
    by (simp add: token_defs)
qed simp_all

lemma twinHand_winning: "checkWinningCondition twinHand"
  using tokenWin_twinHand by (simp add: checkWinningCondition_tokenWin twinHand_def)

lemma candidates_by_position:
  "set (allPossibleMelds g k) =
     {nths g I | I. I \<subseteq> {..<length g} \<and> card I = k \<and> (isSet (nths g I) \<or> isRun (nths g I))}"
  (is "?L = ?R")
proof (intro set_eqI iffI)
  fix m assume "m \<in> ?L"
  then have m: "subseq m g" "length m = k" "isSet m \<or> isRun m"
    by (simp_all add: allPossibleMelds_set)
  from m(1) obtain I where I: "I \<subseteq> {..<length g}" "m = nths g I" "card I = length m"
    by (rule subseq_index_set)
  with m(2,3) have "I \<subseteq> {..<length g} \<and> card I = k \<and> (isSet (nths g I) \<or> isRun (nths g I))"
    by simp
  with I(2) show "m \<in> ?R" by blast
next
  fix m assume "m \<in> ?R"
  then obtain I where I: "m = nths g I" "I \<subseteq> {..<length g}" "card I = k"
    "isSet (nths g I) \<or> isRun (nths g I)" by blast
  have "subseq (nths g I) g" unfolding subseq_conv_nths by blast
  moreover have "length (nths g I) = k" using length_nths_subset [OF I(2)] I(3) by simp
  ultimately show "m \<in> ?L" using I(1,4) by (simp add: allPossibleMelds_set)
qed

text \<open>
  Claim C3, as amended. \<open>checkWinningCondition\<close> compares cards by token in two
  places. It returns true exactly for a 13-card hand with a decomposition in which, after a
  4-meld is chosen, every card whose token occurs in the meld is dropped, nine cards
  remain, and two 3-melds among them share no token: the remainder after a 4-meld keeps
  exactly the cards whose token differs from every token of the meld, and
  \<open>areDisjoint\<close> holds exactly when no token of one meld equals a token of the other.
  The candidate melds themselves are chosen by position in the hand, so two copies of one
  token are two cards of a candidate.
\<close>

theorem checkWinningCondition_by_tokens:
  "(checkWinningCondition hand \<longleftrightarrow> length hand = 13 \<and> tokenWin hand) \<and>
   remainingCardsAfterMeld4 cs meld4 =
     filter (\<lambda>c. \<forall>d\<in>set meld4. original c \<noteq> original d) cs \<and>
   (areDisjoint m3_one m3_two \<longleftrightarrow>
     (\<forall>c\<in>set m3_one. \<forall>d\<in>set m3_two. original c \<noteq> original d)) \<and>
   set (allPossibleMelds cs k) =
     {nths cs I | I. I \<subseteq> {..<length cs} \<and> card I = k \<and>
        (isSet (nths cs I) \<or> isRun (nths cs I))}"
  using checkWinningCondition_tokenWin [of hand] remaining_by_tokens [of cs meld4]
    areDisjoint_by_tokens [of m3_one m3_two] candidates_by_position [of cs k]
  by (intro conjI)

theorem checkWinningCondition_by_tokens_witness:
  "tokenWin twinHand \<and> checkWinningCondition twinHand \<and>
   remainingCardsAfterMeld4 (map parseCard twinHand)
     (map parseCard [r7 @ SPADE, r7 @ DIAMOND, r7 @ HEART]) =
     map parseCard [rA @ HEART, r2 @ HEART, r3 @ HEART,
       r4 @ CLUB, r5 @ CLUB, r6 @ CLUB, r9 @ SPADE, rJ @ DIAMOND, rK @ CLUB] \<and>
   \<not> areDisjoint (map parseCard [r5 @ SPADE, r6 @ SPADE, r7 @ SPADE])
     (map parseCard [r7 @ SPADE, r7 @ DIAMOND, r7 @ HEART]) \<and>
   {0, 1, 2, 3} \<subseteq> {..<length (map parseCard twinHand)} \<and> card {0, 1, 2, 3 :: nat} = 4 \<and>
   nths (map parseCard twinHand) {0, 1, 2, 3} \<in> set (allPossibleMelds (map parseCard twinHand) 4)"
proof -
  note w = checkWinningCondition_by_tokens [of twinHand "map parseCard twinHand"
      "map parseCard [r7 @ SPADE, r7 @ DIAMOND, r7 @ HEART]"
      "map parseCard [r5 @ SPADE, r6 @ SPADE, r7 @ SPADE]"
      "map parseCard [r7 @ SPADE, r7 @ DIAMOND, r7 @ HEART]" 4]
  have 1: "checkWinningCondition twinHand"
    using w tokenWin_twinHand by (simp add: twinHand_def)
  have 2: "remainingCardsAfterMeld4 (map parseCard twinHand)
     (map parseCard [r7 @ SPADE, r7 @ DIAMOND, r7 @ HEART]) =
     map parseCard [rA @ HEART, r2 @ HEART, r3 @ HEART,
       r4 @ CLUB, r5 @ CLUB, r6 @ CLUB, r9 @ SPADE, rJ @ DIAMOND, rK @ CLUB]"
    unfolding w [THEN conjunct2, THEN conjunct1] by (simp add: twinHand_def token_defs)
  have 3: "\<not> areDisjoint (map parseCard [r5 @ SPADE, r6 @ SPADE, r7 @ SPADE])
     (map parseCard [r7 @ SPADE, r7 @ DIAMOND, r7 @ HEART])"
    unfolding w [THEN conjunct2, THEN conjunct2, THEN conjunct1] by (simp add: token_defs)
  have idx: "{0, 1, 2, 3} = {..<4::nat}" by auto
  have sub: "{0, 1, 2, 3} \<subseteq> {..<length (map parseCard twinHand)}"
    by (simp add: twinHand_def)
  have crd: "card {0, 1, 2, 3 :: nat} = 4" by simp
  have n: "nths (map parseCard twinHand) {0, 1, 2, 3} =
      map parseCard [r7 @ SPADE, r7 @ SPADE, r7 @ DIAMOND, r7 @ HEART]"
    unfolding idx nths_upt_eq_take by (simp add: twinHand_def)
  have "isSet (nths (map parseCard twinHand) {0, 1, 2, 3})"
    unfolding n using meld_sevens by (simp add: meld_def eval_defs parse_defs token_defs)
  with sub crd
  have 4: "nths (map parseCard twinHand) {0, 1, 2, 3}
      \<in> set (allPossibleMelds (map parseCard twinHand) 4)"
    unfolding w [THEN conjunct2, THEN conjunct2, THEN conjunct2] by blast
  from tokenWin_twinHand 1 2 3 sub crd 4 show ?thesis by (intro conjI)
qed

text \<open>
  Copies of one token are told apart inside a candidate, so it is not true that the
  evaluation never distinguishes them. On \<open>twinHand\<close> the only candidate 4-meld holds
  the seven of spades twice, as two of its four cards and two of its black cards, and the
  hand wins through it.
\<close>

theorem checkWinningCondition_by_tokens_counterexample:
  "allPossibleMelds (map parseCard twinHand) 4 =
     [map parseCard [r7 @ SPADE, r7 @ SPADE, r7 @ DIAMOND, r7 @ HEART]] \<and>
   \<not> distinct [r7 @ SPADE, r7 @ SPADE, r7 @ DIAMOND, r7 @ HEART] \<and>
   countColor Black (map parseCard [r7 @ SPADE, r7 @ SPADE, r7 @ DIAMOND, r7 @ HEART]) = 2 \<and>
   checkWinningCondition twinHand"
  using twinHand_candidates twinHand_winning
  by (simp add: countColor_def parse_defs token_defs)

section \<open>The turn commands\<close>

lemma elemAt_Some [simp]: "i < length xs \<Longrightarrow> elemAt xs i = Some (xs ! i)"
  by (simp add: elemAt_def)

lemma elemAt_None [simp]: "\<not> i < length xs \<Longrightarrow> elemAt xs i = None"
  by (simp add: elemAt_def)

lemma mapIndexed_update:
  "mapIndexed (\<lambda>p index. if index = k then f p else p) xs =
   (if k < length xs then xs[k := f (xs ! k)] else xs)"
  by (rule nth_equalityI) (auto simp: mapIndexed_def nth_list_update)

lemma nths_without: "nths xs (- {i}) = take i xs @ drop (Suc i) xs"
proof (induction xs arbitrary: i)
  case Nil
  then show ?case by simp
next
  case (Cons x xs)
  show ?case
  proof (cases i)
    case 0
    have "{j. Suc j \<in> - {0::nat}} = UNIV" by auto
    with 0 show ?thesis by (simp add: nths_Cons nths_all)
  next
    case (Suc i')
    have "{j. Suc j \<in> - {Suc i'}} = - {i'}" by auto
    with Suc Cons.IH [of i'] show ?thesis by (simp add: nths_Cons)
  qed
qed

lemma filterIndexed_remove:
  "filterIndexed (\<lambda>_ j. j \<noteq> i) xs = take i xs @ drop (Suc i) xs"
proof -
  have "filterIndexed (\<lambda>_ j. j \<noteq> i) xs = nths xs (- {i})"
    unfolding filterIndexed_def nths_def
    by (rule arg_cong [where f = "map fst"], rule filter_cong) auto
  then show ?thesis by (simp add: nths_without)
qed

lemma sliceFrom_1: "sliceFrom xs 1 = tl xs"
  by (cases xs) (simp_all add: sliceFrom_def relIndex_def)

lemma drawCard_inProgress:
  assumes "inProgress t"
  shows "drawCard t =
     (if deck t \<noteq> [] \<and> length (activeHand t) < 14
      then (Accepted,
            t\<lparr>deck := tl (deck t),
              players := withActiveHand t (activeHand t @ [hd (deck t)])\<rparr>)
      else (Rejected (if deck t = [] then DeckEmpty else HandSizeCap), t))"
  using assms
  by (simp add: drawCard_def inProgress_def activeHand_def activePlayer_def withActiveHand_def
      MAX_CARDS_PER_PLAYER_LOGIC_def Let_def mapIndexed_update sliceFrom_1 hd_conv_nth)

lemma skipTurn_inProgress:
  assumes "inProgress t"
  shows "skipTurn t =
     (if length (activeHand t) = 13 \<and> \<not> checkWinningCondition (activeHand t)
      then (Accepted, t\<lparr>currentPlayer := nextPlayer t\<rparr>)
      else (Rejected InvalidSkipState, t))"
  using assms
  by (simp add: skipTurn_def inProgress_def activeHand_def activePlayer_def nextPlayer_def
      MIN_CARDS_PER_PLAYER_def Let_def)

lemma declareWin_inProgress:
  assumes "inProgress t"
  shows "declareWin t =
     (if length (activeHand t) = 13 \<and> checkWinningCondition (activeHand t)
      then (Accepted, t\<lparr>winner := Some (activePlayer t)\<rparr>)
      else (Rejected InvalidDeclareState, t))"
  using assms
  by (simp add: declareWin_def inProgress_def activeHand_def activePlayer_def
      MIN_CARDS_PER_PLAYER_def Let_def)

lemma discardCard_inProgress:
  assumes "inProgress t" "draggedCardIndex t = None"
    and "i < length (activeHand t)" "activeHand t ! i \<noteq> []"
  shows "discardCard i t =
     (if length (activeHand t) > 13
      then (Accepted,
            t\<lparr>players := withActiveHand t (take i (activeHand t) @ drop (Suc i) (activeHand t)),
              discardedCards := discardedCards t @
                [\<lparr>playerId = pid (activePlayer t), discarded = activeHand t ! i\<rparr>],
              currentPlayer :=
                (if length (take i (activeHand t) @ drop (Suc i) (activeHand t)) = 13 \<and>
                    \<not> checkWinningCondition (take i (activeHand t) @ drop (Suc i) (activeHand t))
                 then nextPlayer t else currentPlayer t)\<rparr>)
      else (Rejected InvalidDiscardState, t))"
proof (cases "length (activeHand t) > 13")
  case False
  with assms show ?thesis
    by (simp add: discardCard_def inProgress_def activeHand_def activePlayer_def
        MIN_CARDS_PER_PLAYER_def Let_def)
next
  case True
  let ?h = "take i (activeHand t) @ drop (Suc i) (activeHand t)"
  have len: "length ?h \<ge> 13" using True assms(3) by simp
  from assms True show ?thesis
    by (simp add: discardCard_def inProgress_def activeHand_def activePlayer_def
        withActiveHand_def nextPlayer_def MIN_CARDS_PER_PLAYER_def Let_def
        mapIndexed_update filterIndexed_remove)
qed

lemma step_game_over: "winner t \<noteq> None \<Longrightarrow> step c t = (Rejected GameOver, t)"
  by (cases c) (simp_all add: drawCard_def discardCard_def skipTurn_def declareWin_def)

lemma run_game_over:
  "winner t \<noteq> None \<Longrightarrow> run cmds t = (map (\<lambda>_. Rejected GameOver) cmds, t)"
  by (induction cmds) (simp_all add: step_game_over)

lemma declareWin_accepted:
  assumes "fst (declareWin t) = Accepted"
  shows "inProgress t \<and> snd (declareWin t) = t\<lparr>winner := Some (activePlayer t)\<rparr>"
  using assms
  by (auto simp: declareWin_def inProgress_def activePlayer_def elemAt_def
      split: if_splits option.splits)

text \<open>
  Claim C6. While the game is in progress, declare succeeds exactly when the active
  player's hand has 13 cards and \<open>checkWinningCondition\<close> holds of it, and then it sets
  the winner to the active player and changes nothing else. After a successful declare
  every sequence of draw, discard, skip and declare commands is rejected command by command
  and leaves the whole table as it was.
\<close>

theorem declareWin_spec:
  "(inProgress t \<longrightarrow>
      declareWin t =
        (if length (activeHand t) = 13 \<and> checkWinningCondition (activeHand t)
         then (Accepted, t\<lparr>winner := Some (activePlayer t)\<rparr>)
         else (Rejected InvalidDeclareState, t))) \<and>
   (fst (declareWin t) = Accepted \<longrightarrow>
      inProgress t \<and>
      snd (declareWin t) = t\<lparr>winner := Some (activePlayer t)\<rparr> \<and>
      run cmds (snd (declareWin t)) =
        (map (\<lambda>_. Rejected GameOver) cmds, snd (declareWin t)))"
proof (intro conjI impI)
  assume "inProgress t"
  then show "declareWin t =
        (if length (activeHand t) = 13 \<and> checkWinningCondition (activeHand t)
         then (Accepted, t\<lparr>winner := Some (activePlayer t)\<rparr>)
         else (Rejected InvalidDeclareState, t))"
    by (rule declareWin_inProgress)
next
  assume acc: "fst (declareWin t) = Accepted"
  then show "inProgress t" using declareWin_accepted by blast
  from acc show eq: "snd (declareWin t) = t\<lparr>winner := Some (activePlayer t)\<rparr>"
    using declareWin_accepted by blast
  have "winner (snd (declareWin t)) \<noteq> None" unfolding eq by simp
  then show "run cmds (snd (declareWin t)) =
        (map (\<lambda>_. Rejected GameOver) cmds, snd (declareWin t))"
    by (rule run_game_over)
qed

lemmas table_defs =
  exampleTable_def seat_def inProgress_def activeHand_def activePlayer_def withActiveHand_def
  nextPlayer_def

theorem declareWin_spec_witness:
  "inProgress exampleTable \<and>
   declareWin exampleTable = (Accepted, exampleTable\<lparr>winner := Some (seat 1 winHand)\<rparr>) \<and>
   run [Draw, Discard 0, Skip, Declare] (exampleTable\<lparr>winner := Some (seat 1 winHand)\<rparr>) =
     ([Rejected GameOver, Rejected GameOver, Rejected GameOver, Rejected GameOver],
      exampleTable\<lparr>winner := Some (seat 1 winHand)\<rparr>)"
proof -
  have ip: "inProgress exampleTable" by (simp add: table_defs)
  have hand: "activeHand exampleTable = winHand" by (simp add: table_defs)
  have pl: "activePlayer exampleTable = seat 1 winHand" by (simp add: table_defs)
  have len: "length winHand = 13" by (simp add: winHand_def)
  note w = declareWin_spec [of exampleTable "[Draw, Discard 0, Skip, Declare]"]
  from w ip have d: "declareWin exampleTable =
      (Accepted, exampleTable\<lparr>winner := Some (seat 1 winHand)\<rparr>)"
    unfolding hand pl using len winHand_winning by simp
  have acc: "fst (declareWin exampleTable) = Accepted" unfolding d by simp
  have "run [Draw, Discard 0, Skip, Declare] (snd (declareWin exampleTable)) =
      (map (\<lambda>_. Rejected GameOver) [Draw, Discard 0, Skip, Declare],
       snd (declareWin exampleTable))"
    by (rule w [THEN conjunct2, rule_format, OF acc, THEN conjunct2, THEN conjunct2])
  then have "run [Draw, Discard 0, Skip, Declare]
        (exampleTable\<lparr>winner := Some (seat 1 winHand)\<rparr>) =
      ([Rejected GameOver, Rejected GameOver, Rejected GameOver, Rejected GameOver],
       exampleTable\<lparr>winner := Some (seat 1 winHand)\<rparr>)"
    unfolding d by (simp del: run.simps)
  with ip d show ?thesis by (intro conjI)
qed

text \<open>
  Claim C7. While the game is in progress and no card is being dragged, discarding at a
  valid index of the active player's hand is accepted exactly when that hand has more than
  13 cards. It then removes the card at that index, appends the record of the player's id
  and the card's token to the discard log, and advances the current-player index by one
  modulo the player count exactly when the resulting hand has 13 cards and does not
  satisfy \<open>checkWinningCondition\<close>; otherwise the index stays. The deck and the winner
  are unchanged. In any state an accepted discard had a hand of more than 13 cards.
\<close>

theorem discardCard_spec:
  "(inProgress t \<and> draggedCardIndex t = None \<and> i < length (activeHand t) \<and>
    activeHand t ! i \<noteq> [] \<longrightarrow>
      discardCard i t =
        (if length (activeHand t) > 13
         then (Accepted,
               t\<lparr>players :=
                   withActiveHand t (take i (activeHand t) @ drop (Suc i) (activeHand t)),
                 discardedCards := discardedCards t @
                   [\<lparr>playerId = pid (activePlayer t), discarded = activeHand t ! i\<rparr>],
                 currentPlayer :=
                   (if length (take i (activeHand t) @ drop (Suc i) (activeHand t)) = 13 \<and>
                       \<not> checkWinningCondition
                           (take i (activeHand t) @ drop (Suc i) (activeHand t))
                    then nextPlayer t else currentPlayer t)\<rparr>)
         else (Rejected InvalidDiscardState, t))) \<and>
   (fst (discardCard i t) = Accepted \<longrightarrow> inProgress t \<and> length (activeHand t) > 13)"
proof (intro conjI impI)
  assume "inProgress t \<and> draggedCardIndex t = None \<and> i < length (activeHand t) \<and>
    activeHand t ! i \<noteq> []"
  then show "discardCard i t =
        (if length (activeHand t) > 13
         then (Accepted,
               t\<lparr>players :=
                   withActiveHand t (take i (activeHand t) @ drop (Suc i) (activeHand t)),
                 discardedCards := discardedCards t @
                   [\<lparr>playerId = pid (activePlayer t), discarded = activeHand t ! i\<rparr>],
                 currentPlayer :=
                   (if length (take i (activeHand t) @ drop (Suc i) (activeHand t)) = 13 \<and>
                       \<not> checkWinningCondition
                           (take i (activeHand t) @ drop (Suc i) (activeHand t))
                    then nextPlayer t else currentPlayer t)\<rparr>)
         else (Rejected InvalidDiscardState, t))"
    using discardCard_inProgress [of t i] by blast
next
  assume acc: "fst (discardCard i t) = Accepted"
  then show "inProgress t"
    by (auto simp: discardCard_def inProgress_def elemAt_def Let_def
        split: if_splits option.splits)
  from acc show "length (activeHand t) > 13"
    by (auto simp: discardCard_def activeHand_def activePlayer_def elemAt_def Let_def
        MIN_CARDS_PER_PLAYER_def split: if_splits option.splits)
qed

theorem discardCard_spec_witness:
  "inProgress discardTable \<and> draggedCardIndex discardTable = None \<and>
   13 < length (activeHand discardTable) \<and> activeHand discardTable ! 13 \<noteq> [] \<and>
   discardCard 13 discardTable =
     (Accepted,
      discardTable\<lparr>players := [seat 1 winHand, seat 2 dupHand],
        discardedCards := [\<lparr>playerId = 2, discarded = r8 @ CLUB\<rparr>],
        currentPlayer := 0\<rparr>)"
proof -
  have ip: "inProgress discardTable" "draggedCardIndex discardTable = None"
    by (simp_all add: discardTable_def table_defs)
  have hand: "activeHand discardTable = dupHand @ [r8 @ CLUB]"
    by (simp add: discardTable_def table_defs)
  have len: "length dupHand = 13" by (simp add: dupHand_def)
  have h': "take 13 (dupHand @ [r8 @ CLUB]) @ drop (Suc 13) (dupHand @ [r8 @ CLUB]) = dupHand"
    using len by simp
  have i: "13 < length (activeHand discardTable)" "activeHand discardTable ! 13 \<noteq> []"
    unfolding hand using len by (simp_all add: nth_append token_defs)
  from discardCard_spec [of discardTable 13] ip i
  have "discardCard 13 discardTable =
         (Accepted,
          discardTable\<lparr>players := withActiveHand discardTable dupHand,
            discardedCards := discardedCards discardTable @
              [\<lparr>playerId = pid (activePlayer discardTable),
                discarded = (dupHand @ [r8 @ CLUB]) ! 13\<rparr>],
            currentPlayer := nextPlayer discardTable\<rparr>)"
    unfolding hand h' using len dupHand_not_winning by simp
  then have "discardCard 13 discardTable =
     (Accepted,
      discardTable\<lparr>players := [seat 1 winHand, seat 2 dupHand],
        discardedCards := [\<lparr>playerId = 2, discarded = r8 @ CLUB\<rparr>],
        currentPlayer := 0\<rparr>)"
    using len by (simp add: discardTable_def table_defs nth_append)
  with ip i show ?thesis by simp
qed

text \<open>
  Claim C8. While the game is in progress, skip is accepted exactly when the active
  player's hand has 13 cards and does not satisfy \<open>checkWinningCondition\<close>; it then
  advances the current-player index by one modulo the player count and changes nothing
  else. Otherwise skip is rejected and the whole table is unchanged.
\<close>

theorem skipTurn_spec:
  "inProgress t \<Longrightarrow>
   skipTurn t =
     (if length (activeHand t) = 13 \<and> \<not> checkWinningCondition (activeHand t)
      then (Accepted, t\<lparr>currentPlayer := (currentPlayer t + 1) mod length (players t)\<rparr>)
      else (Rejected InvalidSkipState, t))"
  using skipTurn_inProgress [of t] by (simp add: nextPlayer_def)

theorem skipTurn_spec_witness:
  "inProgress (exampleTable\<lparr>currentPlayer := 1\<rparr>) \<and>
   skipTurn (exampleTable\<lparr>currentPlayer := 1\<rparr>) = (Accepted, exampleTable) \<and>
   inProgress exampleTable \<and>
   skipTurn exampleTable = (Rejected InvalidSkipState, exampleTable)"
proof -
  have ip: "inProgress (exampleTable\<lparr>currentPlayer := 1\<rparr>)" "inProgress exampleTable"
    by (simp_all add: table_defs)
  have hand: "activeHand (exampleTable\<lparr>currentPlayer := 1\<rparr>) = dupHand"
    "activeHand exampleTable = winHand"
    by (simp_all add: table_defs)
  have len: "length dupHand = 13" "length winHand = 13" by (simp_all add: dupHand_def winHand_def)
  have 1: "skipTurn (exampleTable\<lparr>currentPlayer := 1\<rparr>) = (Accepted, exampleTable)"
    using skipTurn_spec [OF ip(1)] len dupHand_not_winning unfolding hand
    by (simp add: exampleTable_def)
  have 2: "skipTurn exampleTable = (Rejected InvalidSkipState, exampleTable)"
    using skipTurn_spec [OF ip(2)] len winHand_winning unfolding hand by simp
  from ip 1 2 show ?thesis by simp
qed

text \<open>
  Claim C9. While the game is in progress, draw is accepted exactly when the deck is not
  empty and the active player's hand has fewer than 14 cards. It then removes the head
  card of the deck and appends it to the end of the active player's hand; the
  current-player index, the discard log, the winner and every other player are unchanged.
  With an empty deck or a hand of 14 cards draw is rejected and the table is unchanged.
\<close>

theorem drawCard_spec:
  "inProgress t \<Longrightarrow>
   drawCard t =
     (if deck t \<noteq> [] \<and> length (activeHand t) < 14
      then (Accepted,
            t\<lparr>deck := tl (deck t),
              players := (players t)[currentPlayer t :=
                (activePlayer t)\<lparr>cards := activeHand t @ [hd (deck t)]\<rparr>]\<rparr>)
      else (Rejected (if deck t = [] then DeckEmpty else HandSizeCap), t))"
  using drawCard_inProgress [of t] by (simp add: withActiveHand_def)

theorem drawCard_spec_witness:
  "inProgress exampleTable \<and>
   drawCard exampleTable =
     (Accepted,
      exampleTable\<lparr>deck := [rK @ HEART],
        players := [seat 1 (winHand @ [r8 @ CLUB]), seat 2 dupHand]\<rparr>) \<and>
   inProgress (exampleTable\<lparr>deck := []\<rparr>) \<and>
   drawCard (exampleTable\<lparr>deck := []\<rparr>) = (Rejected DeckEmpty, exampleTable\<lparr>deck := []\<rparr>)"
proof -
  have ip: "inProgress exampleTable" "inProgress (exampleTable\<lparr>deck := []\<rparr>)"
    by (simp_all add: table_defs)
  have len: "length winHand = 13" by (simp add: winHand_def)
  have 1: "drawCard exampleTable =
     (Accepted,
      exampleTable\<lparr>deck := [rK @ HEART],
        players := [seat 1 (winHand @ [r8 @ CLUB]), seat 2 dupHand]\<rparr>)"
    using drawCard_spec [OF ip(1)] len by (simp add: table_defs)
  have 2: "drawCard (exampleTable\<lparr>deck := []\<rparr>) =
      (Rejected DeckEmpty, exampleTable\<lparr>deck := []\<rparr>)"
    using drawCard_spec [OF ip(2)] by simp
  from ip 1 2 show ?thesis by simp
qed

section \<open>Deck construction\<close>

lemma canonicalTokens_distinct: "distinct canonicalTokens \<and> length canonicalTokens = 52"
  by (simp add: canonicalTokens_def RANK_ORDER_def token_defs)

lemma unshuffledDeck_Suc:
  "unshuffledDeck (Suc k) = unshuffledDeck k @ canonicalTokens"
  by (simp add: unshuffledDeck_def canonicalTokens_def deckSuits_def deckValues_def RANK_ORDER_def)

lemma unshuffledDeck_count:
  "count (mset (unshuffledDeck k)) t = k * count (mset canonicalTokens) t"
proof (induction k)
  case 0
  then show ?case by (simp add: unshuffledDeck_def)
next
  case (Suc k)
  then show ?case by (simp add: unshuffledDeck_Suc)
qed

lemma unshuffledDeck_length: "length (unshuffledDeck k) = 52 * k"
proof (induction k)
  case 0
  then show ?case by (simp add: unshuffledDeck_def)
next
  case (Suc k)
  then show ?case using canonicalTokens_distinct by (simp add: unshuffledDeck_Suc)
qed

lemma random_index:
  assumes "0 \<le> r" "r < 1"
  shows "nat \<lfloor>r * real (i + 1)\<rfloor> \<le> i"
proof -
  have "r * real (i + 1) < real (i + 1)" using assms by simp
  then have "\<lfloor>r * real (i + 1)\<rfloor> < int (i + 1)" by (simp add: floor_less_iff)
  then show ?thesis by simp
qed

lemma shuffleLoop_mset:
  assumes "\<forall>c. 0 \<le> rnd c \<and> rnd c < 1"
  shows "i < length d \<or> i = 0 \<Longrightarrow> mset (shuffleLoop rnd c i d) = mset d"
proof (induction i arbitrary: c d)
  case 0
  then show ?case by simp
next
  case (Suc i)
  let ?j = "nat \<lfloor>rnd c * real (Suc i + 1)\<rfloor>"
  let ?d = "d[Suc i := d ! ?j, ?j := d ! Suc i]"
  from Suc.prems have i: "Suc i < length d" by simp
  have j: "?j \<le> Suc i" using assms by (intro random_index) auto
  with i have j': "?j < length d" by simp
  have "mset ?d = mset d" using mset_swap [OF j' i] by simp
  moreover have "mset (shuffleLoop rnd (Suc c) i ?d) = mset ?d"
    using i by (intro Suc.IH) simp
  ultimately show ?case by (simp add: Let_def)
qed

lemma numDecks_ge1:
  assumes "1 \<le> n"
  shows "nat (max 1 \<lceil>real_of_int n / 2\<rceil>) = nat \<lceil>real_of_int n / 2\<rceil>"
proof -
  have "0 < real_of_int n / 2" using assms by simp
  then have "0 < \<lceil>real_of_int n / 2\<rceil>" by (simp add: ceiling_less_iff less_ceiling_iff)
  then show ?thesis by simp
qed

lemma createDeck_mset:
  assumes "\<forall>c. 0 \<le> rnd c \<and> rnd c < 1"
  shows "mset (createDeck rnd n) = mset (unshuffledDeck (nat (max 1 \<lceil>real_of_int n / 2\<rceil>)))"
proof -
  let ?d = "unshuffledDeck (nat (max 1 \<lceil>real_of_int n / 2\<rceil>))"
  have "length ?d - 1 < length ?d \<or> length ?d - 1 = 0" by auto
  from shuffleLoop_mset [OF assms this] show ?thesis by (simp add: createDeck_def Let_def)
qed

text \<open>
  Claim C10. For every player count \<open>n \<ge> 1\<close>, and whatever numbers in \<open>[0, 1)\<close> the
  random source returns, the deck has \<open>52 * ceil(n/2)\<close> tokens: each of the 52 canonical
  tokens exactly \<open>ceil(n/2)\<close> times and no other token. The 52 canonical tokens are
  pairwise different.
\<close>

theorem createDeck_spec:
  assumes "1 \<le> n" and "\<forall>c. 0 \<le> rnd c \<and> rnd c < 1"
  shows "length (createDeck rnd n) = 52 * nat \<lceil>real_of_int n / 2\<rceil> \<and>
         (\<forall>t. count (mset (createDeck rnd n)) t =
              (if t \<in> set canonicalTokens then nat \<lceil>real_of_int n / 2\<rceil> else 0)) \<and>
         distinct canonicalTokens \<and> length canonicalTokens = 52"
proof -
  let ?k = "nat \<lceil>real_of_int n / 2\<rceil>"
  have m: "mset (createDeck rnd n) = mset (unshuffledDeck ?k)"
    using createDeck_mset [OF assms(2), of n] numDecks_ge1 [OF assms(1)] by simp
  have "length (createDeck rnd n) = length (unshuffledDeck ?k)"
    using m by (rule mset_eq_length)
  then have len: "length (createDeck rnd n) = 52 * ?k" by (simp add: unshuffledDeck_length)
  have cnt: "count (mset (createDeck rnd n)) t = (if t \<in> set canonicalTokens then ?k else 0)"
    for t
  proof (cases "t \<in> set canonicalTokens")
    case True
    then have "count (mset canonicalTokens) t = 1"
      using canonicalTokens_distinct by (simp add: distinct_count_atmost_1)
    with True show ?thesis by (simp add: m unshuffledDeck_count)
  next
    case False
    then have "count (mset canonicalTokens) t = 0" by (simp add: count_mset_0_iff)
    with False show ?thesis by (simp add: m unshuffledDeck_count)
  qed
  from len cnt canonicalTokens_distinct show ?thesis by simp
qed

theorem createDeck_spec_witness:
  "(1::int) \<le> 4 \<and> (\<forall>c::nat. (0::real) \<le> 1 / 2 \<and> (1::real) / 2 < 1) \<and>
   length (createDeck (\<lambda>c. 1 / 2) 4) = 104 \<and>
   count (mset (createDeck (\<lambda>c. 1 / 2) 4)) (r7 @ SPADE) = 2"
proof -
  have n: "(1::int) \<le> 4" by simp
  have r: "\<forall>c::nat. (0::real) \<le> (\<lambda>c. 1 / 2) c \<and> (\<lambda>c. 1 / 2) c < (1::real)" by simp
  have k: "nat \<lceil>real_of_int 4 / 2\<rceil> = 2" by simp
  have mem: "r7 @ SPADE \<in> set canonicalTokens"
    by (simp add: canonicalTokens_def RANK_ORDER_def)
  note w = createDeck_spec [OF n r]
  from w have "length (createDeck (\<lambda>c. 1 / 2) 4) = 104" unfolding k by simp
  moreover from w mem have "count (mset (createDeck (\<lambda>c. 1 / 2) 4)) (r7 @ SPADE) = 2"
    unfolding k by simp
  ultimately show ?thesis by simp
qed

text \<open>The hand \<open>dupHand\<close> is part of the deck that a four-player game builds.\<close>

lemma distinct_subset_mset:
  assumes "distinct xs" "distinct ys" "set xs \<subseteq> set ys"
  shows "mset xs \<subseteq># mset ys"
  using subset_imp_msubset_mset_set [of "set xs" "set ys"] assms
  by (simp add: mset_set_set)

lemma dupHand_dealable:
  assumes "\<forall>c. 0 \<le> rnd c \<and> rnd c < 1"
  shows "mset dupHand \<subseteq># mset (createDeck rnd 4)"
proof -
  let ?d1 = "[r4 @ SPADE, r5 @ SPADE, r6 @ SPADE, r7 @ SPADE,
      rA @ HEART, r2 @ HEART, r3 @ HEART,
      r5 @ DIAMOND, r6 @ DIAMOND, r7 @ DIAMOND, r9 @ CLUB, rJ @ CLUB]"
  have canon: "distinct canonicalTokens" using canonicalTokens_distinct by simp
  have "distinct ?d1" by (simp add: token_defs)
  moreover have "set ?d1 \<subseteq> set canonicalTokens"
    by (simp add: canonicalTokens_def RANK_ORDER_def)
  ultimately have 1: "mset ?d1 \<subseteq># mset canonicalTokens"
    using canon by (intro distinct_subset_mset)
  have "distinct [r7 @ SPADE]" "set [r7 @ SPADE] \<subseteq> set canonicalTokens"
    by (simp_all add: canonicalTokens_def RANK_ORDER_def)
  then have 2: "mset [r7 @ SPADE] \<subseteq># mset canonicalTokens"
    using canon by (intro distinct_subset_mset)
  have "mset dupHand = mset ?d1 + mset [r7 @ SPADE]" by (simp add: dupHand_def)
  then have "mset dupHand \<subseteq># mset canonicalTokens + mset canonicalTokens"
    using subset_mset.add_mono [OF 1 2] by simp
  moreover have "mset (createDeck rnd 4) = mset canonicalTokens + mset canonicalTokens"
  proof -
    have k: "nat (max 1 \<lceil>real_of_int 4 / 2\<rceil>) = Suc (Suc 0)" by simp
    have "mset (createDeck rnd 4) = mset (unshuffledDeck (Suc (Suc 0)))"
      using createDeck_mset [OF assms, of 4] unfolding k .
    moreover have "unshuffledDeck 0 = []" by (simp add: unshuffledDeck_def)
    ultimately show ?thesis by (simp add: unshuffledDeck_Suc)
  qed
  ultimately show ?thesis by simp
qed

section \<open>The run predicate\<close>

lemma all_suit_first:
  assumes "grp \<noteq> []"
  shows "list_all (\<lambda>card. suit card = suit (grp ! 0)) grp = sameSuit grp"
proof -
  from assms have "grp ! 0 \<in> set grp" by (cases grp) auto
  then show ?thesis unfolding sameSuit_def list_all_iff by metis
qed

subsection \<open>The sort\<close>

lemma mset_insertBy: "mset (insertBy cmp x ys) = add_mset x (mset ys)"
  by (induction ys) simp_all

lemma mset_sortBy: "mset (sortBy cmp xs) = mset xs"
  by (induction xs) (simp_all add: sortBy_def mset_insertBy)

lemma set_sortBy: "set (sortBy cmp xs) = set xs"
  using mset_sortBy [of cmp xs] by (rule mset_eq_setD)

lemma length_sortBy: "length (sortBy cmp xs) = length xs"
  using mset_sortBy [of cmp xs] by (rule mset_eq_length)

lemma insertBy_insort:
  assumes "val x \<noteq> None" "\<forall>y\<in>set ys. val y \<noteq> None"
  shows "insertBy byValue x ys = insort_key cardValue x ys"
  using assms by (induction ys) (auto simp: byValue_def cardValue_def)

lemma sortBy_sort_key:
  assumes "\<forall>c\<in>set xs. val c \<noteq> None"
  shows "sortBy byValue xs = sort_key cardValue xs"
  using assms
proof (induction xs)
  case Nil
  then show ?case by (simp add: sortBy_def)
next
  case (Cons x xs)
  then have "sortBy byValue xs = sort_key cardValue xs" by simp
  moreover have "sortBy byValue (x # xs) = insertBy byValue x (sortBy byValue xs)"
    by (simp add: sortBy_def)
  moreover have "insertBy byValue x (sort_key cardValue xs) =
      insort_key cardValue x (sort_key cardValue xs)"
    using Cons.prems by (intro insertBy_insort) simp_all
  ultimately show ?case by simp
qed

lemma map_insort_key: "map f (insort_key f x ys) = insort (f x) (map f ys)"
  by (induction ys) simp_all

lemma map_sort_key: "map f (sort_key f xs) = sort (map f xs)"
  by (induction xs) (simp_all add: map_insort_key)

subsection \<open>The standard sequence\<close>

lemma consecutive_Cons2:
  "consecutive (a # b # rest) \<longleftrightarrow> b = a + 1 \<and> consecutive (b # rest)"
proof -
  have "(\<forall>i\<in>{0 ..< Suc (length rest)}. (a # b # rest) ! (i + 1) = (a # b # rest) ! i + 1) \<longleftrightarrow>
        (b = a + 1 \<and> (\<forall>i\<in>{0 ..< length rest}. (b # rest) ! (i + 1) = (b # rest) ! i + 1))"
    (is "?L \<longleftrightarrow> ?R")
  proof
    assume l: ?L
    then have "(a # b # rest) ! (0 + 1) = (a # b # rest) ! 0 + 1" by (intro bspec [OF l]) simp
    moreover have "(b # rest) ! (i + 1) = (b # rest) ! i + 1" if "i \<in> {0 ..< length rest}" for i
      using bspec [OF l, of "Suc i"] that by simp
    ultimately show ?R by simp
  next
    assume r: ?R
    show ?L
    proof
      fix i assume "i \<in> {0 ..< Suc (length rest)}"
      then show "(a # b # rest) ! (i + 1) = (a # b # rest) ! i + 1"
        using r by (cases i) auto
    qed
  qed
  then show ?thesis by (simp add: consecutive_def)
qed

lemma standardSequence_defined:
  "standardSequence xs \<Longrightarrow> 2 \<le> length xs \<Longrightarrow> \<forall>c\<in>set xs. val c \<noteq> None"
proof (induction xs rule: standardSequence.induct)
  case (1 a b rest)
  from "1.prems"(1) have nn: "\<not> notNext (val b) (val a)" and rest: "standardSequence (b # rest)"
    by (auto split: if_splits)
  from nn have ab: "val a \<noteq> None" "val b \<noteq> None"
    by (auto simp: notNext_def split: option.splits)
  show ?case
  proof (cases rest)
    case Nil
    with ab show ?thesis by simp
  next
    case (Cons c cs)
    with "1.IH" nn rest have "\<forall>c\<in>set (b # rest). val c \<noteq> None" by simp
    with ab show ?thesis by simp
  qed
qed simp_all

lemma standardSequence_consecutive:
  "\<forall>c\<in>set xs. val c \<noteq> None \<Longrightarrow>
   standardSequence xs = consecutive (map cardValue xs)"
proof (induction xs rule: standardSequence.induct)
  case (1 a b rest)
  then obtain x y where xy: "val a = Some x" "val b = Some y" by auto
  with 1 show ?case by (simp add: consecutive_Cons2 notNext_def cardValue_def)
qed (simp_all add: consecutive_def)

lemma standard_iff_consecutiveValues:
  assumes "2 \<le> length grp"
  shows "standardSequence (sortBy byValue grp) = consecutiveValues grp"
proof (cases "\<forall>c\<in>set grp. val c \<noteq> None")
  case True
  then have s: "sortBy byValue grp = sort_key cardValue grp" by (rule sortBy_sort_key)
  have "\<forall>c\<in>set (sort_key cardValue grp). val c \<noteq> None" using True by simp
  then have "standardSequence (sort_key cardValue grp) =
      consecutive (map cardValue (sort_key cardValue grp))"
    by (rule standardSequence_consecutive)
  with True s show ?thesis by (simp add: consecutiveValues_def map_sort_key)
next
  case False
  have "\<not> standardSequence (sortBy byValue grp)"
  proof
    assume "standardSequence (sortBy byValue grp)"
    then have "\<forall>c\<in>set (sortBy byValue grp). val c \<noteq> None"
      using assms by (intro standardSequence_defined) (simp_all add: length_sortBy)
    with False show False by (simp add: set_sortBy)
  qed
  with False show ?thesis by (simp add: consecutiveValues_def)
qed

subsection \<open>The Ace-high sequence\<close>

lemma rankValue_order: "map rankValue RANK_ORDER = [1, 2, 3, 4, 5, 6, 7, 8, 9, 10, 11, 12, 13]"
  by (simp add: rankValue_def RANK_ORDER_def CARD_VALUES_def token_defs)

lemma rankValue_inj: "inj_on rankValue (set RANK_ORDER)"
proof -
  have "distinct (map rankValue RANK_ORDER)" unfolding rankValue_order by simp
  then show ?thesis by (simp add: distinct_map)
qed

lemma CARD_VALUES_defined: "r \<in> set RANK_ORDER \<Longrightarrow> CARD_VALUES r \<noteq> None"
  by (auto simp: RANK_ORDER_def CARD_VALUES_def token_defs)

lemma RANK_ORDER_below:
  "RANK_ORDER = rA # [r2, r3, r4, r5, r6, r7, r8, r9, r10, rJ, rQ, rK]"
  by (simp add: RANK_ORDER_def)

lemma topRanks_subset: "set (topRanksBelowAce k) \<subseteq> set RANK_ORDER"
  unfolding topRanksBelowAce_def RANK_ORDER_below
  using set_drop_subset [of "12 - k" "[r2, r3, r4, r5, r6, r7, r8, r9, r10, rJ, rQ, rK]"]
  by auto

lemma topRanks_no_ace: "rA \<notin> set (topRanksBelowAce k)"
proof -
  have "rA \<notin> set [r2, r3, r4, r5, r6, r7, r8, r9, r10, rJ, rQ, rK]"
    by (simp add: token_defs)
  then show ?thesis
    unfolding topRanksBelowAce_def
    using set_drop_subset [of "12 - k" "[r2, r3, r4, r5, r6, r7, r8, r9, r10, rJ, rQ, rK]"]
    by blast
qed

lemma topRanks_length: "length (topRanksBelowAce k) = min k 12"
  by (simp add: topRanksBelowAce_def)

lemma topRanks_sorted: "sorted (map rankValue (topRanksBelowAce k))"
proof -
  have "sorted (map rankValue RANK_ORDER)" unfolding rankValue_order by simp
  then have "sorted (map rankValue [r2, r3, r4, r5, r6, r7, r8, r9, r10, rJ, rQ, rK])"
    unfolding RANK_ORDER_below by simp
  then have "sorted (drop (12 - k) (map rankValue [r2, r3, r4, r5, r6, r7, r8, r9, r10, rJ, rQ, rK]))"
    by (rule sorted_wrt_drop)
  then show ?thesis by (simp only: topRanksBelowAce_def drop_map)
qed

lemma expectedHighRanks:
  assumes "3 \<le> n"
  shows "sliceFrom RANK_ORDER (- (int n - 1)) =
         (if n - 1 \<le> 12 then topRanksBelowAce (n - 1) else RANK_ORDER)"
proof -
  have idx: "relIndex (- (int n - 1)) (length RANK_ORDER) = 13 - (n - 1)"
    using assms by (auto simp: relIndex_def RANK_ORDER_def)
  have sl: "sliceFrom RANK_ORDER (- (int n - 1)) = drop (13 - (n - 1)) RANK_ORDER"
    unfolding sliceFrom_def idx ..
  show ?thesis
  proof (cases "n - 1 \<le> 12")
    case True
    then have "13 - (n - 1) = Suc (12 - (n - 1))" by simp
    then have "drop (13 - (n - 1)) RANK_ORDER = topRanksBelowAce (n - 1)"
      unfolding topRanksBelowAce_def RANK_ORDER_below by simp
    with True sl show ?thesis by simp
  next
    case False
    then have "13 - (n - 1) = 0" by simp
    with False sl show ?thesis by simp
  qed
qed

lemma expectedHighRanks_norm:
  assumes "3 \<le> n"
  shows "sliceFrom RANK_ORDER (1 - int n) =
         (if n - 1 \<le> 12 then topRanksBelowAce (n - 1) else RANK_ORDER)"
proof -
  have "1 - int n = - (int n - 1)" by simp
  then show ?thesis using expectedHighRanks [OF assms] by (simp only:)
qed

lemma list_all_nth_eq:
  "(length xs = length ys \<and> list_all (\<lambda>idx. xs ! idx = ys ! idx) [0 ..< length xs]) \<longleftrightarrow> xs = ys"
proof
  assume h: "length xs = length ys \<and> list_all (\<lambda>idx. xs ! idx = ys ! idx) [0 ..< length xs]"
  then have "\<forall>i<length xs. xs ! i = ys ! i" by (simp add: list_all_iff)
  with h show "xs = ys" by (intro nth_equalityI) simp_all
next
  assume "xs = ys"
  then show "length xs = length ys \<and> list_all (\<lambda>idx. xs ! idx = ys ! idx) [0 ..< length xs]"
    by (simp add: list_all_iff)
qed

lemma isRun_unfold:
  "isRun grp =
     (3 \<le> length grp \<and> sameSuit grp \<and>
      (standardSequence (sortBy byValue grp) \<or> aceBranch (sortBy byValue grp)))"
proof (cases "length grp < 3")
  case True
  then show ?thesis by (simp add: isRun_def)
next
  case False
  then have ne: "grp \<noteq> []" by auto
  show ?thesis
    unfolding isRun_def Let_def aceBranch_def list_all_nth_eq all_suit_first [OF ne] length_map
    using False by auto
qed

lemma filter_length_sortBy:
  "length (filter P (sortBy cmp xs)) = length (filter P xs)"
proof -
  have "mset (filter P (sortBy cmp xs)) = mset (filter P xs)"
    by (simp add: mset_sortBy)
  then show ?thesis by (rule mset_eq_length)
qed

lemma ace_count:
  assumes "1 \<le> length grp"
  shows "length (filter (\<lambda>c. rank c \<noteq> rA) grp) = length grp - 1 \<longleftrightarrow>
         length (filter (\<lambda>c. rank c = rA) grp) = 1"
  using sum_length_filter_compl [of "\<lambda>c. rank c = rA" grp] assms by auto

lemma aceBranch_imp_aceHigh:
  assumes n: "3 \<le> length grp" and ab: "aceBranch (sortBy byValue grp)"
  shows "aceHigh grp"
proof -
  let ?s = "sortBy byValue grp"
  let ?P = "\<lambda>c. rank c \<noteq> rA"
  from ab have len: "length (filter ?P ?s) = length grp - 1"
    and eq: "map rank (filter ?P ?s) = sliceFrom RANK_ORDER (- (int (length grp) - 1))"
    by (simp_all add: aceBranch_def length_sortBy)
  from n have n1: "1 \<le> length grp" by simp
  from len have "length (filter ?P grp) = length grp - 1" by (simp add: filter_length_sortBy)
  then have one: "length (filter (\<lambda>c. rank c = rA) grp) = 1"
    by (rule iffD1 [OF ace_count [OF n1]])
  have le: "length grp - 1 \<le> 12"
  proof (rule ccontr)
    assume "\<not> length grp - 1 \<le> 12"
    with eq n have "map rank (filter ?P ?s) = RANK_ORDER" by (simp add: expectedHighRanks_norm)
    then have "rA \<in> set (map rank (filter ?P ?s))" by (simp add: RANK_ORDER_def)
    then show False by auto
  qed
  have "mset (map rank (filter ?P grp)) = mset (map rank (filter ?P ?s))"
    by (simp add: mset_sortBy)
  also have "\<dots> = mset (topRanksBelowAce (length grp - 1))"
    using eq n le by (simp add: expectedHighRanks_norm)
  finally show ?thesis using one by (simp add: aceHigh_def)
qed

lemma aceHigh_imp_aceBranch:
  assumes n: "3 \<le> length grp" and coh: "\<forall>c\<in>set grp. val c = CARD_VALUES (rank c)"
    and ah: "aceHigh grp"
  shows "aceBranch (sortBy byValue grp)"
proof -
  let ?s = "sortBy byValue grp"
  let ?P = "\<lambda>c. rank c \<noteq> rA"
  let ?k = "length grp - 1"
  let ?G = "filter ?P grp"
  from ah have one: "length (filter (\<lambda>c. rank c = rA) grp) = 1"
    and ms: "mset (map rank ?G) = mset (topRanksBelowAce ?k)"
    by (simp_all add: aceHigh_def)
  from n have n1: "1 \<le> length grp" by simp
  from one have lenG: "length ?G = ?k" by (rule iffD2 [OF ace_count [OF n1]])
  from ms have "length (map rank ?G) = length (topRanksBelowAce ?k)" by (rule mset_eq_length)
  with lenG have le: "?k \<le> 12" by (simp add: topRanks_length)
  have ranks: "rank c \<in> set RANK_ORDER" if "c \<in> set grp" for c
  proof (cases "rank c = rA")
    case True
    then show ?thesis by (simp add: RANK_ORDER_def)
  next
    case False
    with that have "rank c \<in> set (map rank ?G)" by simp
    then have "rank c \<in> set (topRanksBelowAce ?k)" using mset_eq_setD [OF ms] by simp
    then show ?thesis using topRanks_subset by blast
  qed
  have defined: "\<forall>c\<in>set grp. val c \<noteq> None"
    using coh ranks CARD_VALUES_defined by simp
  have key: "cardValue c = rankValue (rank c)" if "c \<in> set grp" for c
    using coh that by (simp add: cardValue_def rankValue_def)
  have s: "?s = sort_key cardValue grp" using defined by (rule sortBy_sort_key)
  have fs: "filter ?P ?s = sort_key cardValue ?G" unfolding s by (rule filter_sort)
  have "map rankValue (map rank (filter ?P ?s)) = map cardValue (sort_key cardValue ?G)"
    unfolding fs map_map by (rule map_cong) (simp_all add: key)
  then have mapped: "map rankValue (map rank (filter ?P ?s)) = sort (map cardValue ?G)"
    by (simp add: map_sort_key)
  have "mset (map rank (filter ?P ?s)) = mset (topRanksBelowAce ?k)"
    unfolding fs using ms by simp
  then have mseq: "mset (map rankValue (topRanksBelowAce ?k)) =
      mset (map rankValue (map rank (filter ?P ?s)))"
    by (metis mset_map)
  have "sort (map rankValue (map rank (filter ?P ?s))) = map rankValue (topRanksBelowAce ?k)"
    using mseq topRanks_sorted by (rule properties_for_sort)
  moreover have "sort (map rankValue (map rank (filter ?P ?s))) =
      map rankValue (map rank (filter ?P ?s))"
    unfolding mapped by (simp add: sorted_sort_id)
  ultimately have meq: "map rankValue (map rank (filter ?P ?s)) =
      map rankValue (topRanksBelowAce ?k)" by simp
  have "set (map rank (filter ?P ?s)) \<subseteq> set RANK_ORDER"
    using ranks by (auto simp: set_sortBy)
  then have "inj_on rankValue (set (map rank (filter ?P ?s)) \<union> set (topRanksBelowAce ?k))"
    using topRanks_subset [of ?k] by (intro inj_on_subset [OF rankValue_inj]) blast
  with meq have eq: "map rank (filter ?P ?s) = topRanksBelowAce ?k"
    by (simp only: inj_on_map_eq_map)
  from one have "filter (\<lambda>c. rank c = rA) grp \<noteq> []" by auto
  then have "\<exists>c\<in>set grp. rank c = rA" by (simp add: filter_empty_conv)
  then have hasAce: "list_ex (\<lambda>c. rank c = rA) ?s" by (simp add: list_ex_iff set_sortBy)
  have "length (filter ?P ?s) = ?k" using lenG by (simp add: filter_length_sortBy)
  with hasAce eq le n show ?thesis
    by (simp add: aceBranch_def length_sortBy expectedHighRanks_norm)
qed

lemma isRun_run_spec:
  assumes "\<forall>c\<in>set grp. val c = CARD_VALUES (rank c)"
  shows "isRun grp = run_spec grp"
proof (cases "3 \<le> length grp")
  case False
  then show ?thesis by (simp add: isRun_unfold run_spec_def)
next
  case True
  then have "standardSequence (sortBy byValue grp) = consecutiveValues grp"
    by (intro standard_iff_consecutiveValues) simp
  moreover have "aceBranch (sortBy byValue grp) = aceHigh grp"
    using aceBranch_imp_aceHigh [OF True] aceHigh_imp_aceBranch [OF True assms] by blast
  ultimately show ?thesis by (auto simp: isRun_unfold run_spec_def)
qed

lemma parseCard_coherent: "val (parseCard t) = CARD_VALUES (rank (parseCard t))"
  by (simp add: parseCard_def Let_def)

text \<open>
  Claim C5. On every group of parsed cards \<open>isRun\<close> holds exactly when the group has at
  least 3 cards, all of one suit, and either the values sorted ascending are strictly
  consecutive, or they are not and the group holds exactly one Ace while the ranks of the
  other cards are exactly the topmost ranks of the order below Ace (Q and K for three
  cards). The Ace-high reading is consulted only when the consecutive check fails.
\<close>

theorem isRun_iff: "isRun (map parseCard ts) = run_spec (map parseCard ts)"
  by (rule isRun_run_spec) (auto simp: parseCard_coherent)

theorem isRun_iff_witness:
  "isRun (map parseCard [rK @ SPADE, rA @ SPADE, rQ @ SPADE]) \<and>
   \<not> consecutiveValues (map parseCard [rK @ SPADE, rA @ SPADE, rQ @ SPADE]) \<and>
   aceHigh (map parseCard [rK @ SPADE, rA @ SPADE, rQ @ SPADE]) \<and>
   isRun (map parseCard [r3 @ HEART, rA @ HEART, r2 @ HEART]) \<and>
   consecutiveValues (map parseCard [r3 @ HEART, rA @ HEART, r2 @ HEART]) \<and>
   \<not> isRun (map parseCard [rK @ SPADE, rA @ SPADE, r2 @ SPADE]) \<and>
   \<not> run_spec (map parseCard [rK @ SPADE, rA @ SPADE, r2 @ SPADE])"
proof -
  have "consecutive [a]" for a by (simp add: consecutive_def)
  then have c: "consecutive [1, 2, 3]" "\<not> consecutive [1, 12, 13]" "\<not> consecutive [1, 2, 13]"
    by (simp_all add: consecutive_Cons2)
  have 1: "\<not> consecutiveValues (map parseCard [rK @ SPADE, rA @ SPADE, rQ @ SPADE])"
    using c by (simp add: consecutiveValues_def cardValue_def parse_defs token_defs)
  have 2: "aceHigh (map parseCard [rK @ SPADE, rA @ SPADE, rQ @ SPADE])"
    by (simp add: aceHigh_def topRanksBelowAce_def parse_defs token_defs)
  have 3: "consecutiveValues (map parseCard [r3 @ HEART, rA @ HEART, r2 @ HEART])"
    using c by (simp add: consecutiveValues_def cardValue_def parse_defs token_defs)
  have 4: "\<not> consecutiveValues (map parseCard [rK @ SPADE, rA @ SPADE, r2 @ SPADE])"
    using c by (simp add: consecutiveValues_def cardValue_def parse_defs token_defs)
  have 5: "\<not> aceHigh (map parseCard [rK @ SPADE, rA @ SPADE, r2 @ SPADE])"
    by (simp add: aceHigh_def topRanksBelowAce_def parse_defs token_defs)
  have s: "sameSuit (map parseCard [rK @ SPADE, rA @ SPADE, rQ @ SPADE])"
    "sameSuit (map parseCard [r3 @ HEART, rA @ HEART, r2 @ HEART])"
    by (simp_all add: sameSuit_def parse_defs token_defs)
  from isRun_iff [of "[rK @ SPADE, rA @ SPADE, rQ @ SPADE]"] 1 2 s
  have a: "isRun (map parseCard [rK @ SPADE, rA @ SPADE, rQ @ SPADE])"
    by (simp add: run_spec_def)
  from isRun_iff [of "[r3 @ HEART, rA @ HEART, r2 @ HEART]"] 3 s
  have b: "isRun (map parseCard [r3 @ HEART, rA @ HEART, r2 @ HEART])"
    by (simp add: run_spec_def)
  from 4 5 have d: "\<not> run_spec (map parseCard [rK @ SPADE, rA @ SPADE, r2 @ SPADE])"
    by (simp add: run_spec_def)
  with isRun_iff [of "[rK @ SPADE, rA @ SPADE, r2 @ SPADE]"]
  have e: "\<not> isRun (map parseCard [rK @ SPADE, rA @ SPADE, r2 @ SPADE])" by simp
  from a 1 2 b 3 e d show ?thesis by (intro conjI)
qed

end
